theory Spec2Isabelle
  imports Main "HOL-Library.Word"
begin

unbundle bit_operations_syntax

section \<open>Typed array allocation macros of \<^verbatim>\<open>c_lib/include/array.h\<close>\<close>

text \<open>
  The header consists of four function-like macros:
  \<^verbatim>\<open>
  #define malloc_complex128(m) (complex128 *)malloc(m * sizeof(complex128))
  #define malloc_complex64(m) (complex64 *)malloc(m * sizeof(complex64))
  #define malloc_float(m) (float *)malloc(m * sizeof(float))
  #define malloc_double(m) (double *)malloc(m * sizeof(double))
  \<close>
  A macro is a token list with a hole for its parameter, so the model works on tokens:
  expansion substitutes the argument's tokens for \<^verbatim>\<open>m\<close>, the expanded token list is
  parsed with the precedence rules of C expressions, and the resulting expression is
  evaluated against a heap whose allocator (\<^verbatim>\<open>malloc\<close> of the C library, not part of
  the header) is a parameter.
\<close>

subsection \<open>Element types\<close>

datatype ctype = Float | Double | Complex64 | Complex128

text \<open>The element kinds under the names the specification gives them.\<close>

abbreviation Real32 :: ctype where "Real32 \<equiv> Float"
abbreviation Real64 :: ctype where "Real64 \<equiv> Double"

text \<open>
  Modelled from the spec: the value of \<^verbatim>\<open>sizeof\<close> for the four element types. The
  typedefs \<^verbatim>\<open>complex64\<close> and \<^verbatim>\<open>complex128\<close> are declared outside the header and the
  sizes of \<^verbatim>\<open>float\<close> and \<^verbatim>\<open>double\<close> belong to the platform; the table of element kinds
  gives 4 bytes for Real32, 8 for Real64, 8 for Complex64 and 16 for Complex128.
\<close>

definition size_of :: "ctype \<Rightarrow> nat" where
  "size_of t = (case t of Float \<Rightarrow> 4 | Double \<Rightarrow> 8 | Complex64 \<Rightarrow> 8 | Complex128 \<Rightarrow> 16)"

subsection \<open>Tokens and macro expansion\<close>

text \<open>
  The binary operators of C, from \<^verbatim>\<open>*\<close>, \<^verbatim>\<open>/\<close>, \<^verbatim>\<open>%\<close> down to \<^verbatim>\<open>||\<close>, and the
  arithmetic unary operators \<^verbatim>\<open>-\<close>, \<^verbatim>\<open>!\<close>, \<^verbatim>\<open>~\<close>.
\<close>

datatype binop = Times | Divide | Modulo | Plus | Minus | Shl | Shr | Lt | Gt | Le | Ge
  | Eq | Ne | BitAnd | BitXor | BitOr | LogAnd | LogOr

datatype unop = Neg | LogNot | Compl

text \<open>
  The tokens. \<open>OP b\<close> is the sign of the binary operator \<open>b\<close> (\<open>OP Times\<close> is also
  the \<^verbatim>\<open>*\<close> of a pointer type, \<open>OP Minus\<close> also the unary minus); \<open>ASSIGN None\<close> is
  \<^verbatim>\<open>=\<close> and \<open>ASSIGN (Some b)\<close> the compound assignment sign of \<open>b\<close>, such as \<^verbatim>\<open>+=\<close>.
  There is no comma token: a comma outside parentheses would end the macro argument.
\<close>

datatype token = LPAREN | RPAREN | OP binop | BANG | TILDE | QUESTION | COLON
  | ASSIGN "binop option" | SIZEOF | TYPENAME ctype | IDENT string | NUM nat

abbreviation STAR :: token where "STAR \<equiv> OP Times"
abbreviation PLUS :: token where "PLUS \<equiv> OP Plus"
abbreviation MINUS :: token where "MINUS \<equiv> OP Minus"

text \<open>Each macro body, token by token, with the argument \<open>m\<close> spliced in as it is.\<close>

definition malloc_complex128 :: "token list \<Rightarrow> token list" where
  "malloc_complex128 m =
     [LPAREN, TYPENAME Complex128, STAR, RPAREN, IDENT ''malloc'', LPAREN] @ m @
     [STAR, SIZEOF, LPAREN, TYPENAME Complex128, RPAREN, RPAREN]"

definition malloc_complex64 :: "token list \<Rightarrow> token list" where
  "malloc_complex64 m =
     [LPAREN, TYPENAME Complex64, STAR, RPAREN, IDENT ''malloc'', LPAREN] @ m @
     [STAR, SIZEOF, LPAREN, TYPENAME Complex64, RPAREN, RPAREN]"

definition malloc_float :: "token list \<Rightarrow> token list" where
  "malloc_float m =
     [LPAREN, TYPENAME Float, STAR, RPAREN, IDENT ''malloc'', LPAREN] @ m @
     [STAR, SIZEOF, LPAREN, TYPENAME Float, RPAREN, RPAREN]"

definition malloc_double :: "token list \<Rightarrow> token list" where
  "malloc_double m =
     [LPAREN, TYPENAME Double, STAR, RPAREN, IDENT ''malloc'', LPAREN] @ m @
     [STAR, SIZEOF, LPAREN, TYPENAME Double, RPAREN, RPAREN]"

text \<open>The macro that serves a given element type.\<close>

fun entry_point :: "ctype \<Rightarrow> token list \<Rightarrow> token list" where
  "entry_point Complex128 = malloc_complex128"
| "entry_point Complex64 = malloc_complex64"
| "entry_point Float = malloc_float"
| "entry_point Double = malloc_double"

subsection \<open>C expressions\<close>

text \<open>
  The fragment of the C expression grammar that the macro bodies and their arguments
  use, with the binary operators at the ten precedence levels of C:
  \<^verbatim>\<open>
  atom        ::= IDENT | NUM | ( expression ) | IDENT ( expression ) | sizeof ( TYPENAME )
  cast        ::= atom | ( TYPENAME * ) cast | - cast | ! cast | ~ cast
  level 2     ::= cast    | level 2  (* or / or %)  cast
  level 3     ::= level 2 | level 3  (+ or -)  level 2
  level 4     ::= level 3 | level 4  (<< or >>)  level 3
  level 5     ::= level 4 | level 5  (< or > or <= or >=)  level 4
  level 6     ::= level 5 | level 6  (== or !=)  level 5
  level 7     ::= level 6 | level 7  &  level 6
  level 8     ::= level 7 | level 8  ^  level 7
  level 9     ::= level 8 | level 9  |  level 8
  level 10    ::= level 9 | level 10  &&  level 9
  level 11    ::= level 10 | level 11  ||  level 10
  conditional ::= level 11 | level 11 ? expression : conditional
  expression  ::= conditional | IDENT assignment-sign expression
  \<close>
\<close>

datatype expr = Var string | Num nat | Paren expr | Call string expr | SizeofType ctype
  | CastPtr ctype expr | Unary unop expr | Bin binop expr expr | Cond expr expr expr
  | Assign "binop option" string expr

abbreviation Mul :: "expr \<Rightarrow> expr \<Rightarrow> expr" where "Mul \<equiv> Bin Times"
abbreviation Add :: "expr \<Rightarrow> expr \<Rightarrow> expr" where "Add \<equiv> Bin Plus"
abbreviation Sub :: "expr \<Rightarrow> expr \<Rightarrow> expr" where "Sub \<equiv> Bin Minus"

text \<open>The precedence level of a binary operator; a lower level binds tighter.\<close>

fun level_of_op :: "binop \<Rightarrow> nat" where
  "level_of_op Times = 2"
| "level_of_op Divide = 2"
| "level_of_op Modulo = 2"
| "level_of_op Plus = 3"
| "level_of_op Minus = 3"
| "level_of_op Shl = 4"
| "level_of_op Shr = 4"
| "level_of_op Lt = 5"
| "level_of_op Gt = 5"
| "level_of_op Le = 5"
| "level_of_op Ge = 5"
| "level_of_op Eq = 6"
| "level_of_op Ne = 6"
| "level_of_op BitAnd = 7"
| "level_of_op BitXor = 8"
| "level_of_op BitOr = 9"
| "level_of_op LogAnd = 10"
| "level_of_op LogOr = 11"

fun sizeof_operand :: "token list \<Rightarrow> (ctype \<times> token list) option" where
  "sizeof_operand (LPAREN # TYPENAME t # RPAREN # r) = Some (t, r)"
| "sizeof_operand _ = None"

definition cast_prefix :: "token list \<Rightarrow> (ctype \<times> token list) option" where
  "cast_prefix ts =
     (case ts of
        LPAREN # TYPENAME t # OP b # RPAREN # r \<Rightarrow> if b = Times then Some (t, r) else None
      | _ \<Rightarrow> None)"

definition unary_prefix :: "token list \<Rightarrow> (unop \<times> token list) option" where
  "unary_prefix ts =
     (case ts of
        OP b # r \<Rightarrow> if b = Minus then Some (Neg, r) else None
      | BANG # r \<Rightarrow> Some (LogNot, r)
      | TILDE # r \<Rightarrow> Some (Compl, r)
      | _ \<Rightarrow> None)"

definition binop_prefix :: "token list \<Rightarrow> (binop \<times> token list) option" where
  "binop_prefix ts = (case ts of OP b # r \<Rightarrow> Some (b, r) | _ \<Rightarrow> None)"

definition assign_prefix :: "token list \<Rightarrow> (string \<times> binop option \<times> token list) option" where
  "assign_prefix ts = (case ts of IDENT x # ASSIGN a # r \<Rightarrow> Some (x, a, r) | _ \<Rightarrow> None)"

fun close_paren ::
  "(expr \<Rightarrow> expr) \<Rightarrow> (expr \<times> token list) option \<Rightarrow> (expr \<times> token list) option" where
  "close_paren f (Some (e, RPAREN # r)) = Some (f e, r)"
| "close_paren f _ = None"

text \<open>
  The nonterminals. \<open>Level k\<close> is the level of the binary operators of precedence
  \<open>k\<close>; \<open>Loop k lhs\<close> reads the operators of that level that follow the left operand
  \<open>lhs\<close> parsed so far.
\<close>

datatype nonterm = Atom | Cast | Level nat | Loop nat expr | Conditional | Expression

type_synonym parser = "nonterm \<Rightarrow> token list \<Rightarrow> (expr \<times> token list) option"

text \<open>
  One level of recursive descent; \<open>rec\<close> stands for the recursive calls. A loop
  carries the left operand parsed so far, which makes the binary operators associate to
  the left; the conditional and the assignment associate to the right.
\<close>

fun parse_step :: "parser \<Rightarrow> parser" where
  "parse_step rec Atom [] = None"
| "parse_step rec Atom (t # r) =
     (case t of
        IDENT x \<Rightarrow>
          (if r \<noteq> [] \<and> hd r = LPAREN then close_paren (Call x) (rec Expression (tl r))
           else Some (Var x, r))
      | NUM k \<Rightarrow> Some (Num k, r)
      | SIZEOF \<Rightarrow>
          (case sizeof_operand r of
             Some (ty, r') \<Rightarrow> Some (SizeofType ty, r')
           | None \<Rightarrow> None)
      | LPAREN \<Rightarrow> close_paren Paren (rec Expression r)
      | _ \<Rightarrow> None)"
| "parse_step rec Cast ts =
     (case cast_prefix ts of
        Some (ty, r) \<Rightarrow>
          (case rec Cast r of
             Some (e, r') \<Rightarrow> Some (CastPtr ty e, r')
           | None \<Rightarrow> None)
      | None \<Rightarrow>
          (case unary_prefix ts of
             Some (u, r) \<Rightarrow>
               (case rec Cast r of
                  Some (e, r') \<Rightarrow> Some (Unary u e, r')
                | None \<Rightarrow> None)
           | None \<Rightarrow> rec Atom ts))"
| "parse_step rec (Level k) ts =
     (if k \<le> 1 then rec Cast ts
      else
        (case rec (Level (k - 1)) ts of
           Some (lhs, r) \<Rightarrow> rec (Loop k lhs) r
         | None \<Rightarrow> None))"
| "parse_step rec (Loop k lhs) ts =
     (case binop_prefix ts of
        Some (b, r) \<Rightarrow>
          (if level_of_op b = k then
             (case rec (Level (k - 1)) r of
                Some (rhs, r') \<Rightarrow> rec (Loop k (Bin b lhs rhs)) r'
              | None \<Rightarrow> None)
           else Some (lhs, ts))
      | None \<Rightarrow> Some (lhs, ts))"
| "parse_step rec Conditional ts =
     (case rec (Level 11) ts of
        Some (c, r) \<Rightarrow>
          (if r \<noteq> [] \<and> hd r = QUESTION then
             (case rec Expression (tl r) of
                Some (a, r1) \<Rightarrow>
                  (if r1 \<noteq> [] \<and> hd r1 = COLON then
                     (case rec Conditional (tl r1) of
                        Some (b, r2) \<Rightarrow> Some (Cond c a b, r2)
                      | None \<Rightarrow> None)
                   else None)
              | None \<Rightarrow> None)
           else Some (c, r))
      | None \<Rightarrow> None)"
| "parse_step rec Expression ts =
     (case assign_prefix ts of
        Some (x, a, r) \<Rightarrow>
          (case rec Expression r of
             Some (e, r') \<Rightarrow> Some (Assign a x e, r')
           | None \<Rightarrow> None)
      | None \<Rightarrow> rec Conditional ts)"

text \<open>The parser with a bound on the depth of recursion; \<open>None\<close> when the bound is hit.\<close>

primrec parse_nt :: "nat \<Rightarrow> parser" where
  "parse_nt 0 = (\<lambda>nt ts. None)"
| "parse_nt (Suc n) = parse_step (parse_nt n)"

text \<open>
  A whole token list is an expression when the parser consumes all of it. The bound
  grows with the input and is shown below to be enough for every expression of the
  grammar (\<open>parse_tokens_of\<close>).
\<close>

definition parse :: "token list \<Rightarrow> expr option" where
  "parse ts = (case parse_nt (16 * length ts + 16) Expression ts of
                 Some (e, []) \<Rightarrow> Some e
               | _ \<Rightarrow> None)"

text \<open>How an expression is written, and which trees the grammar derives.\<close>

fun unop_token :: "unop \<Rightarrow> token" where
  "unop_token Neg = MINUS"
| "unop_token LogNot = BANG"
| "unop_token Compl = TILDE"

fun tokens_of :: "expr \<Rightarrow> token list" where
  "tokens_of (Var x) = [IDENT x]"
| "tokens_of (Num k) = [NUM k]"
| "tokens_of (Paren e) = LPAREN # tokens_of e @ [RPAREN]"
| "tokens_of (Call f e) = IDENT f # LPAREN # tokens_of e @ [RPAREN]"
| "tokens_of (SizeofType t) = [SIZEOF, LPAREN, TYPENAME t, RPAREN]"
| "tokens_of (CastPtr t e) = LPAREN # TYPENAME t # STAR # RPAREN # tokens_of e"
| "tokens_of (Unary u e) = unop_token u # tokens_of e"
| "tokens_of (Bin b l r) = tokens_of l @ OP b # tokens_of r"
| "tokens_of (Cond c a b) = tokens_of c @ QUESTION # tokens_of a @ COLON # tokens_of b"
| "tokens_of (Assign a x e) = IDENT x # ASSIGN a # tokens_of e"

text \<open>
  Precedence level of an expression: 0 atom, 1 cast or unary, 2 to 11 the level of its
  binary operator, 12 conditional, 13 assignment.
\<close>

fun level :: "expr \<Rightarrow> nat" where
  "level (CastPtr t e) = 1"
| "level (Unary u e) = 1"
| "level (Bin b l r) = level_of_op b"
| "level (Cond c a b) = 12"
| "level (Assign a x e) = 13"
| "level _ = 0"

fun grammatical :: "expr \<Rightarrow> bool" where
  "grammatical (Paren e) = grammatical e"
| "grammatical (Call f e) = grammatical e"
| "grammatical (CastPtr t e) = (grammatical e \<and> level e \<le> 1)"
| "grammatical (Unary u e) = (grammatical e \<and> level e \<le> 1)"
| "grammatical (Bin b l r) =
     (grammatical l \<and> level l \<le> level_of_op b \<and> grammatical r \<and> level r < level_of_op b)"
| "grammatical (Cond c a b) =
     (grammatical c \<and> level c \<le> 11 \<and> grammatical a \<and> grammatical b \<and> level b \<le> 12)"
| "grammatical (Assign a x e) = grammatical e"
| "grammatical _ = True"

subsection \<open>The heap and the platform allocator\<close>

text \<open>
  Addresses and sizes are words of the host's address width (\<^verbatim>\<open>size_t\<close>). The heap
  records the live blocks (base address and byte length) and the contents of memory.
  The platform's \<^verbatim>\<open>malloc\<close> takes the heap and a size and returns a pointer, null
  (\<open>0\<close>) on failure, and the heap it leaves.
\<close>

record 'w heap =
  live :: "('w \<times> nat) list"
  mem :: "'w \<Rightarrow> 8 word"

type_synonym 'a allocator = "'a word heap \<Rightarrow> 'a word \<Rightarrow> 'a word \<times> 'a word heap"

text \<open>
  The program state: the variables an argument expression may read, the heap, and the
  sizes passed to the allocator so far, in call order.
\<close>

record 'w state =
  vars :: "string \<Rightarrow> 'w"
  heap :: "'w heap"
  calls :: "'w list"

datatype 'w val = SizeT 'w | VoidPtr 'w | Ptr ctype 'w

text \<open>
  Evaluation of an expression, left operand first. Variables and constants are of type
  \<^verbatim>\<open>size_t\<close>, so arithmetic is unsigned and wraps modulo \<open>2 ^ w\<close>; a comparison or a
  logical operator gives 1 or 0. Division and remainder by zero have no value. A shift
  by the width or more, which C leaves undefined, is given the value of the
  mathematical shift reduced modulo \<open>2 ^ w\<close>.
\<close>

definition truth :: "bool \<Rightarrow> ('a::len) word" where
  "truth p = (if p then 1 else 0)"

fun unop_val :: "unop \<Rightarrow> ('a::len) word \<Rightarrow> 'a word" where
  "unop_val Neg a = - a"
| "unop_val LogNot a = truth (a = 0)"
| "unop_val Compl a = NOT a"

fun binop_val :: "binop \<Rightarrow> ('a::len) word \<Rightarrow> 'a word \<Rightarrow> 'a word option" where
  "binop_val Times a b = Some (a * b)"
| "binop_val Divide a b = (if b = 0 then None else Some (a div b))"
| "binop_val Modulo a b = (if b = 0 then None else Some (a mod b))"
| "binop_val Plus a b = Some (a + b)"
| "binop_val Minus a b = Some (a - b)"
| "binop_val Shl a b = Some (push_bit (unat b) a)"
| "binop_val Shr a b = Some (drop_bit (unat b) a)"
| "binop_val Lt a b = Some (truth (a < b))"
| "binop_val Gt a b = Some (truth (b < a))"
| "binop_val Le a b = Some (truth (a \<le> b))"
| "binop_val Ge a b = Some (truth (b \<le> a))"
| "binop_val Eq a b = Some (truth (a = b))"
| "binop_val Ne a b = Some (truth (a \<noteq> b))"
| "binop_val BitAnd a b = Some (a AND b)"
| "binop_val BitXor a b = Some (a XOR b)"
| "binop_val BitOr a b = Some (a OR b)"
| "binop_val LogAnd a b = Some (truth (a \<noteq> 0 \<and> b \<noteq> 0))"
| "binop_val LogOr a b = Some (truth (a \<noteq> 0 \<or> b \<noteq> 0))"

text \<open>\<^verbatim>\<open>&&\<close> and \<^verbatim>\<open>||\<close> leave their right operand unevaluated when the left decides.\<close>

definition short_circuit :: "binop \<Rightarrow> ('a::len) word \<Rightarrow> bool" where
  "short_circuit b a \<longleftrightarrow> (b = LogAnd \<and> a = 0) \<or> (b = LogOr \<and> a \<noteq> 0)"

text \<open>
  \<^verbatim>\<open>malloc\<close> is the only function known; a pointer cast changes the static type of a
  pointer and nothing else; an ill-typed expression has no value. An argument only reads
  the variables: an assignment is parsed, so that its grouping is known, but it is given
  no value.
\<close>

fun eval ::
  "('a::len) allocator \<Rightarrow> expr \<Rightarrow> 'a word state \<Rightarrow>
   ('a word val \<times> 'a word state) option" where
  "eval alloc (Var x) s = Some (SizeT (vars s x), s)"
| "eval alloc (Num k) s = Some (SizeT (of_nat k), s)"
| "eval alloc (Paren e) s = eval alloc e s"
| "eval alloc (Call f e) s =
     (if f = ''malloc'' then
        (case eval alloc e s of
           Some (SizeT n, s1) \<Rightarrow>
             (case alloc (heap s1) n of
                (p, h) \<Rightarrow> Some (VoidPtr p, s1\<lparr>heap := h, calls := calls s1 @ [n]\<rparr>))
         | _ \<Rightarrow> None)
      else None)"
| "eval alloc (SizeofType t) s = Some (SizeT (of_nat (size_of t)), s)"
| "eval alloc (CastPtr t e) s =
     (case eval alloc e s of
        Some (VoidPtr p, s1) \<Rightarrow> Some (Ptr t p, s1)
      | Some (Ptr u p, s1) \<Rightarrow> Some (Ptr t p, s1)
      | _ \<Rightarrow> None)"
| "eval alloc (Unary u e) s =
     (case eval alloc e s of
        Some (SizeT a, s1) \<Rightarrow> Some (SizeT (unop_val u a), s1)
      | _ \<Rightarrow> None)"
| "eval alloc (Bin b l r) s =
     (case eval alloc l s of
        Some (SizeT x, s1) \<Rightarrow>
          (if short_circuit b x then Some (SizeT (truth (b = LogOr)), s1)
           else
             (case eval alloc r s1 of
                Some (SizeT y, s2) \<Rightarrow>
                  (case binop_val b x y of
                     Some v \<Rightarrow> Some (SizeT v, s2)
                   | None \<Rightarrow> None)
              | _ \<Rightarrow> None))
      | _ \<Rightarrow> None)"
| "eval alloc (Cond c a b) s =
     (case eval alloc c s of
        Some (SizeT x, s1) \<Rightarrow> (if x \<noteq> 0 then eval alloc a s1 else eval alloc b s1)
      | _ \<Rightarrow> None)"
| "eval alloc (Assign a x e) s = None"

text \<open>A macro use: the expanded tokens are parsed and the expression is evaluated.\<close>

definition run ::
  "('a::len) allocator \<Rightarrow> token list \<Rightarrow> 'a word state \<Rightarrow>
   ('a word val \<times> 'a word state) option" where
  "run alloc ts s = (case parse ts of Some e \<Rightarrow> eval alloc e s | None \<Rightarrow> None)"

text \<open>The sizes passed to the allocator during one macro use.\<close>

definition requested ::
  "('a::len) allocator \<Rightarrow> token list \<Rightarrow> 'a word state \<Rightarrow> 'a word list option" where
  "requested alloc ts s =
     (case run alloc ts s of
        Some (v, s') \<Rightarrow> Some (drop (length (calls s)) (calls s'))
      | None \<Rightarrow> None)"

definition buffer_length :: "'w heap \<Rightarrow> 'w \<Rightarrow> nat option" where
  "buffer_length h p = map_of (live h) p"

definition store_byte :: "'w heap \<Rightarrow> 'w \<Rightarrow> 8 word \<Rightarrow> 'w heap" where
  "store_byte h a v = h\<lparr>mem := (mem h)(a := v)\<rparr>"

text \<open>
  What ISO C promises of \<^verbatim>\<open>malloc\<close>: it may fail with a null pointer, allocating
  nothing; a non-null result is the base of a new block of the requested length that
  lies inside the address space and overlaps no live block. A block of length zero
  counts as one byte here, since a non-null result for size zero behaves as if the size
  were non-zero.
\<close>

definition block_end :: "('a::len) word \<times> nat \<Rightarrow> nat" where
  "block_end b = unat (fst b) + max 1 (snd b)"

definition blocks_disjoint :: "('a::len) word \<times> nat \<Rightarrow> 'a word \<times> nat \<Rightarrow> bool" where
  "blocks_disjoint b c \<longleftrightarrow> block_end b \<le> unat (fst c) \<or> block_end c \<le> unat (fst b)"

definition malloc_contract :: "('a::len) allocator \<Rightarrow> bool" where
  "malloc_contract alloc \<longleftrightarrow>
     (\<forall>h n. case alloc h n of (p, h') \<Rightarrow>
        if p = 0 then live h' = live h
        else set (live h') = insert (p, unat n) (set (live h)) \<and>
             block_end (p, unat n) \<le> 2 ^ LENGTH('a) \<and>
             (\<forall>b \<in> set (live h). blocks_disjoint (p, unat n) b))"

text \<open>
  Two allocators that keep this promise, for concrete runs: a bump allocator that hands
  out the first address above every live block and fails when the address space is
  used up. With \<open>null_on_zero\<close> it answers a request for zero bytes with a null
  pointer, which ISO C allows as well as a unique non-null pointer.
\<close>

definition next_free :: "('a::len) word heap \<Rightarrow> nat" where
  "next_free h = fold (\<lambda>b hi. max hi (block_end b)) (live h) 1"

definition bump_malloc :: "bool \<Rightarrow> ('a::len) allocator" where
  "bump_malloc null_on_zero h n =
     (if (null_on_zero \<and> n = 0) \<or> 2 ^ LENGTH('a) < next_free h + max 1 (unat n) then (0, h)
      else (of_nat (next_free h), h\<lparr>live := live h @ [(of_nat (next_free h), unat n)]\<rparr>))"

subsection \<open>The allocation operation as the specification words it\<close>

text \<open>
  \<^verbatim>\<open>allocate(count, kind)\<close>: compute \<^verbatim>\<open>bytes = count * size_of(kind)\<close> on the host's
  address-width arithmetic, request \<^verbatim>\<open>bytes\<close> from the platform allocator, and interpret
  the returned region as an array of \<^verbatim>\<open>kind\<close>.
\<close>

definition allocate ::
  "('a::len) allocator \<Rightarrow> 'a word \<Rightarrow> ctype \<Rightarrow> 'a word state \<Rightarrow>
   'a word val \<times> 'a word state" where
  "allocate alloc count kind s =
     (let bytes = count * of_nat (size_of kind);
          (p, h) = alloc (heap s) bytes
      in (Ptr kind p, s\<lparr>heap := h, calls := calls s @ [bytes]\<rparr>))"

subsection \<open>Concrete states\<close>

text \<open>
  A 64-bit host with an empty heap whose memory holds stale bytes (\<^verbatim>\<open>0xAA\<close>), with
  variables \<^verbatim>\<open>a = 3\<close>, \<^verbatim>\<open>b = 5\<close> and every other variable \<^verbatim>\<open>1024\<close>; and the same host
  with nearly all of the address space in use.
\<close>

definition stale_heap :: "64 word heap" where
  "stale_heap = \<lparr>live = [], mem = (\<lambda>a. 170)\<rparr>"

definition start64 :: "64 word state" where
  "start64 = \<lparr>vars = (\<lambda>x. if x = ''a'' then 3 else if x = ''b'' then 5 else 1024),
              heap = stale_heap, calls = []\<rparr>"

definition exhausted64 :: "64 word state" where
  "exhausted64 = start64\<lparr>heap := stale_heap\<lparr>live := [(16, 2 ^ 64 - 32)]\<rparr>\<rparr>"

subsection \<open>The expression a macro use denotes\<close>

text \<open>
  The expression that results when \<^verbatim>\<open>* sizeof(t)\<close> is written after the tokens of an
  argument \<open>e\<close>: the product attaches to \<open>e\<close> as a whole when \<open>e\<close> binds at least as
  tightly as multiplication, and otherwise to the last operand of \<open>e\<close> (the right
  operand of a binary operator below multiplication, the third operand of a conditional,
  the right-hand side of an assignment).
\<close>

fun regroup :: "ctype \<Rightarrow> expr \<Rightarrow> expr" where
  "regroup t (Bin b l r) =
     (if 2 < level_of_op b then Bin b l (regroup t r) else Mul (Bin b l r) (SizeofType t))"
| "regroup t (Cond c a b) = Cond c a (regroup t b)"
| "regroup t (Assign a x e) = Assign a x (regroup t e)"
| "regroup t e = Mul e (SizeofType t)"

subsection \<open>Auxiliary notions for the parser proof\<close>

text \<open>A recursion depth that suffices to parse an expression.\<close>

fun need :: "expr \<Rightarrow> nat" where
  "need (Paren e) = need e + 16"
| "need (Call f e) = need e + 16"
| "need (CastPtr t e) = need e + 1"
| "need (Unary u e) = need e + 1"
| "need (Bin b l r) = need l + need r + 12"
| "need (Cond c a b) = need c + need a + need b + 2"
| "need (Assign a x e) = need e + 1"
| "need _ = 2"

text \<open>
  What may follow an expression for the parser to stop after it: \<open>follow j\<close> for an
  operand of the binary operators of level \<open>j\<close>, \<open>closes\<close> for a whole expression.
\<close>

definition starts :: "token \<Rightarrow> token list \<Rightarrow> bool" where
  "starts t ts \<longleftrightarrow> ts \<noteq> [] \<and> hd ts = t"

definition follow :: "nat \<Rightarrow> token list \<Rightarrow> bool" where
  "follow j rest \<longleftrightarrow>
     \<not> starts LPAREN rest \<and>
     (case binop_prefix rest of Some (b, r) \<Rightarrow> j < level_of_op b | None \<Rightarrow> True)"

definition closes :: "token list \<Rightarrow> bool" where
  "closes rest \<longleftrightarrow>
     follow 11 rest \<and> \<not> starts QUESTION rest \<and> (\<forall>a. \<not> starts (ASSIGN a) rest)"

text \<open>
  The parser reads the tokens of an expression back, per nonterminal, given enough
  recursion depth.
\<close>

definition atom_ok :: "expr \<Rightarrow> bool" where
  "atom_ok e \<longleftrightarrow> (\<forall>n rest. need e \<le> Suc n \<longrightarrow> \<not> starts LPAREN rest \<longrightarrow>
     parse_nt n Atom (tokens_of e @ rest) = Some (e, rest))"

definition cast_ok :: "expr \<Rightarrow> bool" where
  "cast_ok e \<longleftrightarrow> (\<forall>n rest. need e \<le> n \<longrightarrow> \<not> starts LPAREN rest \<longrightarrow>
     parse_nt n Cast (tokens_of e @ rest) = Some (e, rest))"

definition exact :: "nat \<Rightarrow> expr \<Rightarrow> bool" where
  "exact k e \<longleftrightarrow> (\<forall>n rest. need e + k + 1 \<le> n \<longrightarrow> follow k rest \<longrightarrow>
     parse_nt n (Level k) (tokens_of e @ rest) = Some (e, rest))"

definition loop_ok :: "nat \<Rightarrow> expr \<Rightarrow> bool" where
  "loop_ok k e \<longleftrightarrow> (\<forall>n rest res. follow (k - 1) rest \<longrightarrow>
     parse_nt n (Loop k e) rest = Some res \<longrightarrow>
     parse_nt (need e + k + n) (Level k) (tokens_of e @ rest) = Some res)"

definition cond_ok :: "expr \<Rightarrow> bool" where
  "cond_ok e \<longleftrightarrow> (\<forall>n rest. need e + 13 \<le> n \<longrightarrow> closes rest \<longrightarrow>
     parse_nt n Conditional (tokens_of e @ rest) = Some (e, rest))"

definition expr_ok :: "expr \<Rightarrow> bool" where
  "expr_ok e \<longleftrightarrow> (\<forall>n rest. need e + 14 \<le> n \<longrightarrow> closes rest \<longrightarrow>
     parse_nt n Expression (tokens_of e @ rest) = Some (e, rest))"

text \<open>
  What a result of the parser must satisfy, per nonterminal: the expression returned is
  one the grammar derives at that level and its tokens are the part of the input that
  was consumed. A loop is entered with its left operand already read.
\<close>

fun derives :: "nonterm \<Rightarrow> token list \<Rightarrow> expr \<Rightarrow> token list \<Rightarrow> bool" where
  "derives Atom ts e r = (ts = tokens_of e @ r \<and> grammatical e \<and> level e = 0)"
| "derives Cast ts e r = (ts = tokens_of e @ r \<and> grammatical e \<and> level e \<le> 1)"
| "derives (Level k) ts e r = (ts = tokens_of e @ r \<and> grammatical e \<and> level e \<le> max 1 k)"
| "derives (Loop k lhs) ts e r =
     (grammatical lhs \<and> level lhs \<le> k \<longrightarrow>
        tokens_of lhs @ ts = tokens_of e @ r \<and> grammatical e \<and> level e \<le> k)"
| "derives Conditional ts e r = (ts = tokens_of e @ r \<and> grammatical e \<and> level e \<le> 12)"
| "derives Expression ts e r = (ts = tokens_of e @ r \<and> grammatical e)"

section \<open>The parser and the grammar\<close>

subsection \<open>The parser reads every expression of the grammar\<close>

text \<open>More recursion depth never changes a result.\<close>

lemma close_paren_Some:
  "close_paren f x = Some res \<longleftrightarrow> (\<exists>e r. x = Some (e, RPAREN # r) \<and> res = (f e, r))"
  by (induction f x rule: close_paren.induct) auto

lemma parse_step_mono:
  assumes le: "\<And>nt ts r. f nt ts = Some r \<Longrightarrow> g nt ts = Some r"
    and step: "parse_step f nt ts = Some res"
  shows "parse_step g nt ts = Some res"
proof (cases nt)
  case Atom
  show ?thesis
  proof (cases ts)
    case Nil
    with step Atom show ?thesis by simp
  next
    case (Cons t r)
    with step Atom show ?thesis
      by (cases t) (auto simp: close_paren_Some split: option.splits if_splits dest!: le)
  qed
next
  case Cast
  with step show ?thesis by (auto split: option.splits dest!: le)
next
  case (Level k)
  with step show ?thesis by (auto split: option.splits if_splits dest!: le)
next
  case (Loop k lhs)
  with step show ?thesis by (auto split: option.splits if_splits dest!: le)
next
  case Conditional
  with step show ?thesis by (auto split: option.splits if_splits dest!: le)
next
  case Expression
  with step show ?thesis by (auto split: option.splits dest!: le)
qed

lemma parse_nt_mono_Suc:
  "parse_nt n nt ts = Some res \<Longrightarrow> parse_nt (Suc n) nt ts = Some res"
proof (induction n arbitrary: nt ts res)
  case 0
  then show ?case by simp
next
  case (Suc n)
  from Suc.prems have "parse_step (parse_nt n) nt ts = Some res" by simp
  then have "parse_step (parse_nt (Suc n)) nt ts = Some res"
    by (rule parse_step_mono [rotated]) (rule Suc.IH)
  then show ?case by simp
qed

lemma parse_nt_mono:
  "parse_nt n nt ts = Some res \<Longrightarrow> n \<le> m \<Longrightarrow> parse_nt m nt ts = Some res"
proof (induction m)
  case 0
  then show ?case by simp
next
  case (Suc m)
  show ?case
  proof (cases "n = Suc m")
    case True
    with Suc.prems show ?thesis by simp
  next
    case False
    with Suc.prems have "n \<le> m" by simp
    with Suc have "parse_nt m nt ts = Some res" by simp
    then show ?thesis by (rule parse_nt_mono_Suc)
  qed
qed

text \<open>
  Every expression of the grammar is read back from its tokens, by induction on the
  expression; the lemmas below are the cases of that induction.
\<close>

lemma atom_okD:
  "atom_ok e \<Longrightarrow> need e \<le> Suc n \<Longrightarrow> \<not> starts LPAREN rest \<Longrightarrow>
   parse_nt n Atom (tokens_of e @ rest) = Some (e, rest)"
  unfolding atom_ok_def by blast

lemma cast_okD:
  "cast_ok e \<Longrightarrow> need e \<le> n \<Longrightarrow> \<not> starts LPAREN rest \<Longrightarrow>
   parse_nt n Cast (tokens_of e @ rest) = Some (e, rest)"
  unfolding cast_ok_def by blast

lemma exactD:
  "exact k e \<Longrightarrow> need e + k + 1 \<le> n \<Longrightarrow> follow k rest \<Longrightarrow>
   parse_nt n (Level k) (tokens_of e @ rest) = Some (e, rest)"
  unfolding exact_def by blast

lemma loop_okD:
  "loop_ok k e \<Longrightarrow> follow (k - 1) rest \<Longrightarrow> parse_nt n (Loop k e) rest = Some res \<Longrightarrow>
   parse_nt (need e + k + n) (Level k) (tokens_of e @ rest) = Some res"
  unfolding loop_ok_def by blast

lemma cond_okD:
  "cond_ok e \<Longrightarrow> need e + 13 \<le> n \<Longrightarrow> closes rest \<Longrightarrow>
   parse_nt n Conditional (tokens_of e @ rest) = Some (e, rest)"
  unfolding cond_ok_def by blast

lemma expr_okD:
  "expr_ok e \<Longrightarrow> need e + 14 \<le> n \<Longrightarrow> closes rest \<Longrightarrow>
   parse_nt n Expression (tokens_of e @ rest) = Some (e, rest)"
  unfolding expr_ok_def by blast

lemma starts_Cons [simp]: "starts t (u # ts) \<longleftrightarrow> u = t"
  by (auto simp: starts_def)

lemma starts_Nil [simp]: "\<not> starts t []"
  by (simp add: starts_def)

lemma follow_simps [simp]:
  "follow j []" "follow j (RPAREN # r)" "follow j (COLON # r)" "follow j (QUESTION # r)"
  "follow j (OP b # r) \<longleftrightarrow> j < level_of_op b"
  by (simp_all add: follow_def binop_prefix_def)

lemma follow_not_call: "follow j rest \<Longrightarrow> \<not> starts LPAREN rest"
  by (simp add: follow_def)

lemma follow_mono: "follow j rest \<Longrightarrow> i \<le> j \<Longrightarrow> follow i rest"
  by (auto simp: follow_def split: option.splits)

lemma closes_simps [simp]: "closes []" "closes (RPAREN # r)" "closes (COLON # r)"
  by (simp_all add: closes_def)

lemma closes_follow: "closes rest \<Longrightarrow> follow 11 rest"
  by (simp add: closes_def)

lemma level_of_op_bounds: "2 \<le> level_of_op b \<and> level_of_op b \<le> 11"
  by (cases b) simp_all

lemma level_of_op_pos [simp]: "level_of_op b \<noteq> 0" "0 < level_of_op b" "level_of_op b \<noteq> Suc 0"
  using level_of_op_bounds [of b] by simp_all

lemma need_ge2: "2 \<le> need e"
  by (induction e) auto

lemma parse_nt_pos: "parse_nt n nt ts = Some res \<Longrightarrow> \<exists>k. n = Suc k"
  by (cases n) auto

lemma tokens_of_hd: "\<exists>t r. tokens_of e = t # r \<and> (\<forall>ty. t \<noteq> TYPENAME ty)"
proof (induction e)
  case (Unary u e)
  then show ?case by (cases u) auto
qed auto

lemma cast_prefix_atom:
  "level e = 0 \<Longrightarrow> cast_prefix (tokens_of e @ rest) = None"
proof (cases e)
  case (Paren e')
  obtain t r where "tokens_of e' = t # r" and "\<forall>ty. t \<noteq> TYPENAME ty"
    using tokens_of_hd by blast
  with Paren show ?thesis by (cases t) (auto simp: cast_prefix_def)
qed (auto simp: cast_prefix_def)

lemma unary_prefix_atom:
  "level e = 0 \<Longrightarrow> unary_prefix (tokens_of e @ rest) = None"
  by (cases e) (auto simp: unary_prefix_def)

lemma cast_prefix_Unary: "cast_prefix (unop_token u # ts) = None"
  by (cases u) (auto simp: cast_prefix_def)

lemma unary_prefix_Unary: "unary_prefix (unop_token u # ts) = Some (u, ts)"
  by (cases u) (auto simp: unary_prefix_def)

lemma atom_ok_Var: "atom_ok (Var x)"
  unfolding atom_ok_def
proof (intro allI impI)
  fix n rest
  assume "need (Var x) \<le> Suc n" and nl: "\<not> starts LPAREN rest"
  then obtain m where "n = Suc m" by (cases n) auto
  with nl show "parse_nt n Atom (tokens_of (Var x) @ rest) = Some (Var x, rest)"
    by (auto simp: starts_def)
qed

lemma atom_ok_Num: "atom_ok (Num k)"
  unfolding atom_ok_def
proof (intro allI impI)
  fix n rest
  assume "need (Num k) \<le> Suc n"
  then obtain m where "n = Suc m" by (cases n) auto
  then show "parse_nt n Atom (tokens_of (Num k) @ rest) = Some (Num k, rest)"
    by simp
qed

lemma atom_ok_SizeofType: "atom_ok (SizeofType t)"
  unfolding atom_ok_def
proof (intro allI impI)
  fix n rest
  assume "need (SizeofType t) \<le> Suc n"
  then obtain m where "n = Suc m" by (cases n) auto
  then show "parse_nt n Atom (tokens_of (SizeofType t) @ rest) = Some (SizeofType t, rest)"
    by simp
qed

lemma expr_ok_closing:
  assumes "expr_ok e" and "need e + 14 \<le> m"
  shows "parse_nt m Expression (tokens_of e @ RPAREN # rest) = Some (e, RPAREN # rest)"
  using assms by (rule expr_okD) simp

lemma atom_ok_Paren:
  assumes "expr_ok e"
  shows "atom_ok (Paren e)"
  unfolding atom_ok_def
proof (intro allI impI)
  fix n rest
  assume "need (Paren e) \<le> Suc n"
  then obtain m where n: "n = Suc m" and m: "need e + 14 \<le> m" by (cases n) auto
  show "parse_nt n Atom (tokens_of (Paren e) @ rest) = Some (Paren e, rest)"
    by (simp add: n expr_ok_closing [OF assms m])
qed

lemma atom_ok_Call:
  assumes "expr_ok e"
  shows "atom_ok (Call f e)"
  unfolding atom_ok_def
proof (intro allI impI)
  fix n rest
  assume "need (Call f e) \<le> Suc n"
  then obtain m where n: "n = Suc m" and m: "need e + 14 \<le> m" by (cases n) auto
  show "parse_nt n Atom (tokens_of (Call f e) @ rest) = Some (Call f e, rest)"
    by (simp add: n expr_ok_closing [OF assms m])
qed

lemma cast_ok_atom:
  assumes "atom_ok e" and "level e = 0"
  shows "cast_ok e"
  unfolding cast_ok_def
proof (intro allI impI)
  fix n rest
  assume le: "need e \<le> n" and nl: "\<not> starts LPAREN rest"
  with need_ge2 [of e] obtain m where n: "n = Suc m" by (cases n) auto
  from le n have "need e \<le> Suc m" by simp
  with assms(1) have "parse_nt m Atom (tokens_of e @ rest) = Some (e, rest)"
    using nl by (rule atom_okD)
  then show "parse_nt n Cast (tokens_of e @ rest) = Some (e, rest)"
    by (simp add: n cast_prefix_atom [OF assms(2)] unary_prefix_atom [OF assms(2)])
qed

lemma cast_ok_CastPtr:
  assumes "cast_ok e"
  shows "cast_ok (CastPtr t e)"
  unfolding cast_ok_def
proof (intro allI impI)
  fix n rest
  assume "need (CastPtr t e) \<le> n" and nl: "\<not> starts LPAREN rest"
  then obtain m where n: "n = Suc m" and m: "need e \<le> m" by (cases n) auto
  from assms m nl have "parse_nt m Cast (tokens_of e @ rest) = Some (e, rest)"
    by (rule cast_okD)
  then show "parse_nt n Cast (tokens_of (CastPtr t e) @ rest) = Some (CastPtr t e, rest)"
    by (simp add: n cast_prefix_def)
qed

lemma cast_ok_Unary:
  assumes "cast_ok e"
  shows "cast_ok (Unary u e)"
  unfolding cast_ok_def
proof (intro allI impI)
  fix n rest
  assume "need (Unary u e) \<le> n" and nl: "\<not> starts LPAREN rest"
  then obtain m where n: "n = Suc m" and m: "need e \<le> m" by (cases n) auto
  from assms m nl have "parse_nt m Cast (tokens_of e @ rest) = Some (e, rest)"
    by (rule cast_okD)
  then show "parse_nt n Cast (tokens_of (Unary u e) @ rest) = Some (Unary u e, rest)"
    by (simp add: n cast_prefix_Unary unary_prefix_Unary)
qed

lemma exact_1:
  assumes "cast_ok e"
  shows "exact (Suc 0) e"
  unfolding exact_def
proof (intro allI impI)
  fix n rest
  assume "need e + Suc 0 + 1 \<le> n" and f: "follow (Suc 0) rest"
  then obtain m where n: "n = Suc m" and m: "need e \<le> m" by (cases n) auto
  from f have "\<not> starts LPAREN rest" by (rule follow_not_call)
  with assms m have "parse_nt m Cast (tokens_of e @ rest) = Some (e, rest)"
    by (rule cast_okD)
  then show "parse_nt n (Level (Suc 0)) (tokens_of e @ rest) = Some (e, rest)"
    by (simp add: n)
qed

lemma loop_stops:
  assumes "follow k rest"
  shows "parse_nt (Suc j) (Loop k e) rest = Some (e, rest)"
  using assms by (auto simp: follow_def split: option.splits)

lemma loop_ok_up:
  assumes ex: "exact k e" and k: "1 \<le> k"
  shows "loop_ok (Suc k) e"
  unfolding loop_ok_def
proof (intro allI impI)
  fix n rest res
  assume f: "follow (Suc k - 1) rest" and loop: "parse_nt n (Loop (Suc k) e) rest = Some res"
  from loop obtain j where j: "n = Suc j" by (rule parse_nt_pos [THEN exE])
  define m where "m = need e + k + n"
  have fuel: "need e + Suc k + n = Suc m" by (simp add: m_def)
  from f have fk: "follow k rest" by simp
  have "parse_nt m (Level k) (tokens_of e @ rest) = Some (e, rest)"
    by (rule exactD [OF ex _ fk]) (simp add: m_def j)
  moreover from loop have "parse_nt m (Loop (Suc k) e) rest = Some res"
    by (rule parse_nt_mono) (simp add: m_def)
  ultimately show "parse_nt (need e + Suc k + n) (Level (Suc k)) (tokens_of e @ rest) = Some res"
    unfolding fuel using k by simp
qed

lemma exact_of_loop:
  assumes l: "loop_ok k e" and k: "2 \<le> k"
  shows "exact k e"
  unfolding exact_def
proof (intro allI impI)
  fix n rest
  assume n: "need e + k + 1 \<le> n" and f: "follow k rest"
  from f have "parse_nt (Suc 0) (Loop k e) rest = Some (e, rest)" by (rule loop_stops)
  moreover from f have "follow (k - 1) rest" by (rule follow_mono) simp
  ultimately have "parse_nt (need e + k + Suc 0) (Level k) (tokens_of e @ rest) = Some (e, rest)"
    by (intro loop_okD [OF l])
  then show "parse_nt n (Level k) (tokens_of e @ rest) = Some (e, rest)"
    by (rule parse_nt_mono) (use n in simp)
qed

lemma loop_ok_Bin:
  assumes l: "loop_ok k l" and r: "exact (k - 1) r" and b: "level_of_op b = k"
  shows "loop_ok k (Bin b l r)"
  unfolding loop_ok_def
proof (intro allI impI)
  fix n rest res
  assume f: "follow (k - 1) rest" and loop: "parse_nt n (Loop k (Bin b l r)) rest = Some res"
  from b level_of_op_bounds [of b] have k: "2 \<le> k" "k \<le> 11" by simp_all
  define m where "m = need r + k + n"
  have "parse_nt m (Level (k - 1)) (tokens_of r @ rest) = Some (r, rest)"
    by (rule exactD [OF r _ f]) (use k in \<open>simp add: m_def\<close>)
  moreover from loop have "parse_nt m (Loop k (Bin b l r)) rest = Some res"
    by (rule parse_nt_mono) (simp add: m_def)
  ultimately have "parse_nt (Suc m) (Loop k l) (OP b # tokens_of r @ rest) = Some res"
    by (simp add: binop_prefix_def b)
  moreover have "follow (k - 1) (OP b # tokens_of r @ rest)"
    using k b by simp
  ultimately have "parse_nt (need l + k + Suc m) (Level k)
      (tokens_of l @ OP b # tokens_of r @ rest) = Some res"
    by (intro loop_okD [OF l])
  then have "parse_nt (need (Bin b l r) + k + n) (Level k)
      (tokens_of l @ OP b # tokens_of r @ rest) = Some res"
    by (rule parse_nt_mono) (use k in \<open>simp add: m_def\<close>)
  then show "parse_nt (need (Bin b l r) + k + n) (Level k) (tokens_of (Bin b l r) @ rest) = Some res"
    by simp
qed

lemma exact_chain:
  assumes "exact k0 e" and "1 \<le> k0" and "k0 \<le> k"
  shows "exact k e \<and> (k0 < k \<longrightarrow> loop_ok k e)"
  using assms(3)
proof (induction k rule: dec_induct)
  case base
  from assms(1) show ?case by simp
next
  case (step j)
  then have ex: "exact j e" by simp
  from step.hyps assms(2) have j: "1 \<le> j" by simp
  from ex j have l: "loop_ok (Suc j) e" by (rule loop_ok_up)
  then have "exact (Suc j) e" by (rule exact_of_loop) (use j in simp)
  with l show ?case by simp
qed

lemma cond_ok_exact:
  assumes "exact 11 e"
  shows "cond_ok e"
  unfolding cond_ok_def
proof (intro allI impI)
  fix n rest
  assume "need e + 13 \<le> n" and c: "closes rest"
  then obtain m where n: "n = Suc m" and m: "need e + 11 + 1 \<le> m" by (cases n) auto
  from c have "follow 11 rest" by (rule closes_follow)
  with assms m have "parse_nt m (Level 11) (tokens_of e @ rest) = Some (e, rest)"
    by (rule exactD)
  moreover from c have "\<not> (rest \<noteq> [] \<and> hd rest = QUESTION)"
    by (simp add: closes_def starts_def)
  ultimately show "parse_nt n Conditional (tokens_of e @ rest) = Some (e, rest)"
    by (auto simp: n)
qed

lemma cond_ok_Cond:
  assumes c: "exact 11 c" and a: "expr_ok a" and b: "cond_ok b"
  shows "cond_ok (Cond c a b)"
  unfolding cond_ok_def
proof (intro allI impI)
  fix n rest
  assume "need (Cond c a b) + 13 \<le> n" and cl: "closes rest"
  then obtain m where n: "n = Suc m" and m: "need c + need a + need b + 14 \<le> m"
    by (cases n) auto
  have "parse_nt m (Level 11) (tokens_of c @ QUESTION # tokens_of a @ COLON # tokens_of b @ rest)
      = Some (c, QUESTION # tokens_of a @ COLON # tokens_of b @ rest)"
    by (rule exactD [OF c]) (use m in simp_all)
  moreover have "parse_nt m Expression (tokens_of a @ COLON # tokens_of b @ rest)
      = Some (a, COLON # tokens_of b @ rest)"
    by (rule expr_okD [OF a]) (use m in simp_all)
  moreover have "parse_nt m Conditional (tokens_of b @ rest) = Some (b, rest)"
    by (rule cond_okD [OF b _ cl]) (use m in simp)
  ultimately show "parse_nt n Conditional (tokens_of (Cond c a b) @ rest) = Some (Cond c a b, rest)"
    by (simp add: n)
qed

lemma assign_prefix_none:
  "grammatical e \<Longrightarrow> level e \<le> 12 \<Longrightarrow> (\<forall>a. \<not> starts (ASSIGN a) rest) \<Longrightarrow>
   assign_prefix (tokens_of e @ rest) = None"
proof (induction e arbitrary: rest)
  case (Var x)
  then show ?case
    by (cases rest) (auto simp: assign_prefix_def split: token.splits list.splits)
next
  case (Unary u e)
  then show ?case by (cases u) (auto simp: assign_prefix_def)
next
  case (Bin b l r)
  have "assign_prefix (tokens_of l @ (OP b # tokens_of r @ rest)) = None"
    using Bin.prems level_of_op_bounds [of b] by (intro Bin.IH(1)) auto
  then show ?case by simp
next
  case (Cond c a b)
  have "assign_prefix (tokens_of c @ (QUESTION # tokens_of a @ COLON # tokens_of b @ rest)) = None"
    using Cond.prems by (intro Cond.IH(1)) auto
  then show ?case by simp
qed (auto simp: assign_prefix_def)

lemma expr_ok_cond:
  assumes c: "cond_ok e" and g: "grammatical e" and lv: "level e \<le> 12"
  shows "expr_ok e"
  unfolding expr_ok_def
proof (intro allI impI)
  fix n rest
  assume "need e + 14 \<le> n" and cl: "closes rest"
  then obtain m where n: "n = Suc m" and m: "need e + 13 \<le> m" by (cases n) auto
  from cl have "\<forall>a. \<not> starts (ASSIGN a) rest" by (simp add: closes_def)
  with g lv have "assign_prefix (tokens_of e @ rest) = None" by (rule assign_prefix_none)
  moreover from c m cl have "parse_nt m Conditional (tokens_of e @ rest) = Some (e, rest)"
    by (rule cond_okD)
  ultimately show "parse_nt n Expression (tokens_of e @ rest) = Some (e, rest)"
    by (simp add: n)
qed

lemma expr_ok_Assign:
  assumes "expr_ok e"
  shows "expr_ok (Assign a x e)"
  unfolding expr_ok_def
proof (intro allI impI)
  fix n rest
  assume "need (Assign a x e) + 14 \<le> n" and cl: "closes rest"
  then obtain m where n: "n = Suc m" and m: "need e + 14 \<le> m" by (cases n) auto
  from assms m cl have "parse_nt m Expression (tokens_of e @ rest) = Some (e, rest)"
    by (rule expr_okD)
  then show "parse_nt n Expression (tokens_of (Assign a x e) @ rest) = Some (Assign a x e, rest)"
    by (simp add: n assign_prefix_def)
qed

lemma complete_from_exact:
  assumes g: "grammatical e" and k0: "1 \<le> k0" "k0 \<le> 11" and lv: "level e \<le> k0"
    and ex: "exact k0 e"
  shows "(\<forall>k. k0 \<le> k \<longrightarrow> exact k e) \<and> (\<forall>k. k0 < k \<longrightarrow> loop_ok k e) \<and> cond_ok e \<and> expr_ok e"
proof -
  have chain: "exact k e \<and> (k0 < k \<longrightarrow> loop_ok k e)" if "k0 \<le> k" for k
    using ex k0(1) that by (rule exact_chain)
  from chain [of 11] k0(2) have "exact 11 e" by simp
  then have c: "cond_ok e" by (rule cond_ok_exact)
  from c g have "expr_ok e" by (rule expr_ok_cond) (use lv k0 in simp)
  with c chain show ?thesis by auto
qed

lemma complete_cast:
  assumes g: "grammatical e" and lv: "level e \<le> 1" and c: "cast_ok e"
  shows "(\<forall>k. max 1 (level e) \<le> k \<longrightarrow> exact k e) \<and> (\<forall>k. max 2 (level e) \<le> k \<longrightarrow> loop_ok k e)
       \<and> cond_ok e \<and> expr_ok e"
proof -
  from c have "exact (Suc 0) e" by (rule exact_1)
  with g have "(\<forall>k. Suc 0 \<le> k \<longrightarrow> exact k e) \<and> (\<forall>k. Suc 0 < k \<longrightarrow> loop_ok k e)
      \<and> cond_ok e \<and> expr_ok e"
    by (intro complete_from_exact) (use lv in simp_all)
  with lv show ?thesis by (auto simp: max_def)
qed

lemma grammatical_ok:
  "grammatical e \<Longrightarrow>
     (level e = 0 \<longrightarrow> atom_ok e) \<and> (level e \<le> 1 \<longrightarrow> cast_ok e) \<and>
     (level e \<le> 11 \<longrightarrow>
        (\<forall>k. max 1 (level e) \<le> k \<longrightarrow> exact k e) \<and> (\<forall>k. max 2 (level e) \<le> k \<longrightarrow> loop_ok k e)) \<and>
     (level e \<le> 12 \<longrightarrow> cond_ok e) \<and> expr_ok e"
proof (induction e)
  case (Var x)
  have a: "atom_ok (Var x)" by (rule atom_ok_Var)
  then have "cast_ok (Var x)" by (rule cast_ok_atom) simp
  with a complete_cast [of "Var x"] show ?case by simp
next
  case (Num k)
  have a: "atom_ok (Num k)" by (rule atom_ok_Num)
  then have "cast_ok (Num k)" by (rule cast_ok_atom) simp
  with a complete_cast [of "Num k"] show ?case by simp
next
  case (SizeofType t)
  have a: "atom_ok (SizeofType t)" by (rule atom_ok_SizeofType)
  then have "cast_ok (SizeofType t)" by (rule cast_ok_atom) simp
  with a complete_cast [of "SizeofType t"] show ?case by simp
next
  case (Paren e)
  then have a: "atom_ok (Paren e)" by (simp add: atom_ok_Paren)
  then have "cast_ok (Paren e)" by (rule cast_ok_atom) simp
  with a Paren.prems complete_cast [of "Paren e"] show ?case by simp
next
  case (Call f e)
  then have a: "atom_ok (Call f e)" by (simp add: atom_ok_Call)
  then have "cast_ok (Call f e)" by (rule cast_ok_atom) simp
  with a Call.prems complete_cast [of "Call f e"] show ?case by simp
next
  case (CastPtr t e)
  then have "cast_ok (CastPtr t e)" by (simp add: cast_ok_CastPtr)
  with CastPtr.prems complete_cast [of "CastPtr t e"] show ?case by simp
next
  case (Unary u e)
  then have "cast_ok (Unary u e)" by (simp add: cast_ok_Unary)
  with Unary.prems complete_cast [of "Unary u e"] show ?case by simp
next
  case (Bin b l r)
  let ?k = "level_of_op b"
  have k: "2 \<le> ?k" "?k \<le> 11" using level_of_op_bounds [of b] by simp_all
  from Bin.prems have gl: "grammatical l" and ll: "level l \<le> ?k"
    and gr: "grammatical r" and lr: "level r < ?k" by simp_all
  have lr': "level r \<le> 11" "max 1 (level r) \<le> ?k - 1" using lr k by auto
  have ll': "level l \<le> 11" "max 2 (level l) \<le> ?k" using ll k by auto
  from Bin.IH(1) [OF gl] ll' have "loop_ok ?k l" by blast
  moreover from Bin.IH(2) [OF gr] lr' have "exact (?k - 1) r" by blast
  ultimately have lp: "loop_ok ?k (Bin b l r)" by (rule loop_ok_Bin) simp
  then have "exact ?k (Bin b l r)" using k(1) by (rule exact_of_loop)
  with Bin.prems have "(\<forall>j. ?k \<le> j \<longrightarrow> exact j (Bin b l r)) \<and> (\<forall>j. ?k < j \<longrightarrow> loop_ok j (Bin b l r))
      \<and> cond_ok (Bin b l r) \<and> expr_ok (Bin b l r)"
    by (intro complete_from_exact) (use k in simp_all)
  moreover have "loop_ok j (Bin b l r)" if "?k \<le> j" for j
    using that lp calculation by (cases "j = ?k") auto
  ultimately show ?case using k by (simp add: max_def)
next
  case (Cond c a b)
  from Cond.prems have gc: "grammatical c" and lc: "level c \<le> 11" and ga: "grammatical a"
    and gb: "grammatical b" and lb: "level b \<le> 12" by simp_all
  have "max 1 (level c) \<le> 11" using lc by simp
  with Cond.IH(1) [OF gc] lc have "exact 11 c" by blast
  moreover from Cond.IH(2) [OF ga] have "expr_ok a" by simp
  moreover from Cond.IH(3) [OF gb] lb have "cond_ok b" by simp
  ultimately have c: "cond_ok (Cond c a b)" by (rule cond_ok_Cond)
  then have "expr_ok (Cond c a b)" using Cond.prems by (rule expr_ok_cond) simp
  with c show ?case by simp
next
  case (Assign a x e)
  then show ?case by (simp add: expr_ok_Assign)
qed

lemma need_le_length: "need e \<le> 16 * length (tokens_of e)"
  by (induction e) auto

lemma parse_tokens_of:
  assumes "grammatical e"
  shows "parse (tokens_of e) = Some e"
proof -
  from assms have ok: "expr_ok e" by (simp add: grammatical_ok)
  have "parse_nt (need e + 14) Expression (tokens_of e @ []) = Some (e, [])"
    by (rule expr_okD [OF ok]) simp_all
  then have "parse_nt (need e + 14) Expression (tokens_of e) = Some (e, [])"
    by simp
  then have "parse_nt (16 * length (tokens_of e) + 16) Expression (tokens_of e) = Some (e, [])"
    by (rule parse_nt_mono) (use need_le_length [of e] in simp)
  then show ?thesis by (simp add: parse_def)
qed

subsection \<open>The parser returns nothing but expressions of the grammar\<close>

lemma sizeof_operand_Some:
  "sizeof_operand ts = Some (t, r) \<longleftrightarrow> ts = LPAREN # TYPENAME t # RPAREN # r"
  by (induction ts rule: sizeof_operand.induct) auto

lemma cast_prefix_Some:
  "cast_prefix ts = Some (t, r) \<longleftrightarrow> ts = LPAREN # TYPENAME t # STAR # RPAREN # r"
  by (auto simp: cast_prefix_def split: list.splits token.splits if_splits)

lemma unary_prefix_Some:
  "unary_prefix ts = Some (u, r) \<longleftrightarrow> ts = unop_token u # r"
  by (cases u) (auto simp: unary_prefix_def split: list.splits token.splits if_splits)

lemma binop_prefix_Some:
  "binop_prefix ts = Some (b, r) \<longleftrightarrow> ts = OP b # r"
  by (auto simp: binop_prefix_def split: list.splits token.splits)

lemma assign_prefix_Some:
  "assign_prefix ts = Some (x, a, r) \<longleftrightarrow> ts = IDENT x # ASSIGN a # r"
  by (auto simp: assign_prefix_def split: list.splits token.splits)

lemma hd_tl_eq: "ts \<noteq> [] \<Longrightarrow> hd ts = t \<Longrightarrow> ts = t # tl ts"
  by (cases ts) auto

lemma parse_step_derives:
  assumes rec: "\<And>nt ts e r. f nt ts = Some (e, r) \<Longrightarrow> derives nt ts e r"
    and step: "parse_step f nt ts = Some (e, r)"
  shows "derives nt ts e r"
proof (cases nt)
  case Atom
  show ?thesis
  proof (cases ts)
    case Nil
    with step Atom show ?thesis by simp
  next
    case (Cons t ts')
    with step Atom show ?thesis
      by (cases t)
        (auto simp: close_paren_Some sizeof_operand_Some split: option.splits if_splits
           dest!: rec dest: hd_tl_eq)
  qed
next
  case Cast
  with step show ?thesis
    by (auto simp: cast_prefix_Some unary_prefix_Some split: option.splits dest!: rec)
next
  case (Level k)
  show ?thesis
  proof (cases "k \<le> 1")
    case True
    with step Level have "f Cast ts = Some (e, r)" by simp
    from rec [OF this] True show ?thesis unfolding Level by simp
  next
    case False
    with step Level obtain lhs r' where c: "f (Level (k - 1)) ts = Some (lhs, r')"
      and l: "f (Loop k lhs) r' = Some (e, r)"
      by (auto split: option.splits)
    from rec [OF c] False have "ts = tokens_of lhs @ r'" "grammatical lhs" "level lhs \<le> k"
      by auto
    with rec [OF l] False show ?thesis unfolding Level by simp
  qed
next
  case (Loop k lhs)
  show ?thesis
  proof (cases "\<exists>b r'. ts = OP b # r' \<and> level_of_op b = k")
    case True
    then obtain b r0 where ts: "ts = OP b # r0" and b: "level_of_op b = k" by blast
    from b level_of_op_bounds [of b] have k: "2 \<le> k" by simp
    from step Loop ts b obtain rhs r' where c: "f (Level (k - 1)) r0 = Some (rhs, r')"
      and l: "f (Loop k (Bin b lhs rhs)) r' = Some (e, r)"
      by (auto simp: binop_prefix_def split: option.splits)
    from rec [OF c] k have rhs: "r0 = tokens_of rhs @ r'" "grammatical rhs" "level rhs < k"
      by auto
    from rec [OF l] have IH: "grammatical (Bin b lhs rhs) \<and> level (Bin b lhs rhs) \<le> k \<longrightarrow>
        tokens_of (Bin b lhs rhs) @ r' = tokens_of e @ r \<and> grammatical e \<and> level e \<le> k"
      by simp
    have toks: "tokens_of lhs @ ts = tokens_of (Bin b lhs rhs) @ r'"
      by (simp add: ts rhs(1))
    show ?thesis unfolding Loop derives.simps
    proof (intro impI)
      assume "grammatical lhs \<and> level lhs \<le> k"
      with rhs b have "grammatical (Bin b lhs rhs) \<and> level (Bin b lhs rhs) \<le> k" by simp
      with IH toks show "tokens_of lhs @ ts = tokens_of e @ r \<and> grammatical e \<and> level e \<le> k"
        by simp
    qed
  next
    case False
    with step Loop have "e = lhs \<and> r = ts"
      by (auto simp: binop_prefix_Some split: option.splits if_splits)
    then show ?thesis unfolding Loop by simp
  qed
next
  case Conditional
  from step Conditional obtain c r0 where c: "f (Level 11) ts = Some (c, r0)"
    by (auto split: option.splits)
  from rec [OF c] have cf: "ts = tokens_of c @ r0" "grammatical c" "level c \<le> 11" by simp_all
  show ?thesis
  proof (cases "r0 \<noteq> [] \<and> hd r0 = QUESTION")
    case True
    then have r0: "r0 = QUESTION # tl r0" by (simp add: hd_tl_eq)
    from step Conditional c True obtain a r1 where a: "f Expression (tl r0) = Some (a, r1)"
      and colon: "r1 \<noteq> [] \<and> hd r1 = COLON"
      by (auto split: option.splits if_splits)
    from colon have r1: "r1 = COLON # tl r1" by (simp add: hd_tl_eq)
    from step Conditional c True a colon obtain b where b: "f Conditional (tl r1) = Some (b, r)"
      and e: "e = Cond c a b"
      by (auto split: option.splits)
    from rec [OF a] have af: "tl r0 = tokens_of a @ r1" "grammatical a" by simp_all
    from rec [OF b] have bf: "tl r1 = tokens_of b @ r" "grammatical b" "level b \<le> 12" by simp_all
    have "ts = tokens_of c @ QUESTION # tokens_of a @ COLON # tokens_of b @ r"
      using cf(1) r0 af(1) r1 bf(1) by metis
    with cf af bf e show ?thesis unfolding Conditional by simp
  next
    case False
    with step Conditional c have "e = c \<and> r = r0" by auto
    with cf show ?thesis unfolding Conditional by simp
  qed
next
  case Expression
  with step show ?thesis
    by (auto simp: assign_prefix_Some split: option.splits dest!: rec)
qed

lemma parse_nt_derives:
  "parse_nt n nt ts = Some (e, r) \<Longrightarrow> derives nt ts e r"
proof (induction n arbitrary: nt ts e r)
  case 0
  then show ?case by simp
next
  case (Suc n)
  from Suc.prems have "parse_step (parse_nt n) nt ts = Some (e, r)" by simp
  then show ?case by (rule parse_step_derives [rotated]) (rule Suc.IH)
qed

lemma parse_sound:
  assumes "parse ts = Some e"
  shows "tokens_of e = ts \<and> grammatical e"
proof -
  from assms have "parse_nt (16 * length ts + 16) Expression ts = Some (e, [])"
    by (auto simp: parse_def split: option.splits list.splits)
  then have "derives Expression ts e []" by (rule parse_nt_derives)
  then show ?thesis by simp
qed

lemma parse_iff: "parse ts = Some e \<longleftrightarrow> grammatical e \<and> tokens_of e = ts"
  using parse_sound parse_tokens_of by blast

subsection \<open>Expansion and evaluation of the macros\<close>

lemma entry_point_tokens:
  "entry_point t m =
     [LPAREN, TYPENAME t, STAR, RPAREN, IDENT ''malloc'', LPAREN] @ m @
     [STAR, SIZEOF, LPAREN, TYPENAME t, RPAREN, RPAREN]"
  by (cases t)
    (simp_all add: malloc_complex128_def malloc_complex64_def malloc_float_def malloc_double_def)

lemma regroup_tight: "level e \<le> 2 \<Longrightarrow> regroup t e = Mul e (SizeofType t)"
  by (cases e) auto

lemma regroup_grammatical:
  "grammatical e \<Longrightarrow>
   grammatical (regroup t e) \<and> level (regroup t e) = max (level e) 2 \<and>
   tokens_of (regroup t e) = tokens_of e @ [STAR, SIZEOF, LPAREN, TYPENAME t, RPAREN]"
proof (induction e)
  case (Bin b l r)
  then show ?case using level_of_op_bounds [of b] by auto
next
  case (Cond c a b)
  then show ?case by auto
qed auto

lemma parse_entry_point:
  assumes "grammatical e"
  shows "parse (entry_point t (tokens_of e)) = Some (CastPtr t (Call ''malloc'' (regroup t e)))"
proof -
  let ?tree = "CastPtr t (Call ''malloc'' (regroup t e))"
  have "entry_point t (tokens_of e) = tokens_of ?tree"
    by (simp add: entry_point_tokens regroup_grammatical [OF assms])
  moreover have "grammatical ?tree" by (simp add: regroup_grammatical [OF assms])
  ultimately show ?thesis by (simp only: parse_tokens_of)
qed

lemma parse_entry_point_mul:
  assumes "grammatical e" and "level e \<le> 2"
  shows "parse (entry_point t (tokens_of e)) =
           Some (CastPtr t (Call ''malloc'' (Mul e (SizeofType t))))"
  using parse_entry_point [OF assms(1), of t] by (simp add: regroup_tight [OF assms(2)])



lemma eval_SizeT_pure:
  "eval alloc e s = Some (SizeT c, s') \<Longrightarrow> s' = s"
proof (induction e arbitrary: c s s')
  case (Call f e)
  then show ?case
    by (auto split: if_splits option.splits val.splits prod.splits)
next
  case (CastPtr t e)
  then show ?case
    by (auto split: option.splits val.splits prod.splits)
next
  case (Unary u e)
  then show ?case
    by (auto split: option.splits val.splits prod.splits)
next
  case (Bin b l r)
  from Bin.prems obtain x s1 where l: "eval alloc l s = Some (SizeT x, s1)"
    by (auto split: option.splits val.splits prod.splits)
  from l have s1: "s1 = s" by (rule Bin.IH)
  show ?case
  proof (cases "short_circuit b x")
    case True
    with Bin.prems l s1 show ?thesis by simp
  next
    case False
    with Bin.prems l obtain y where "eval alloc r s1 = Some (SizeT y, s')"
      by (auto split: option.splits val.splits prod.splits)
    then have "s' = s1" by (rule Bin.IH)
    with s1 show ?thesis by simp
  qed
next
  case (Cond c0 a b)
  from Cond.prems obtain x s1 where c0: "eval alloc c0 s = Some (SizeT x, s1)"
    by (auto split: option.splits val.splits prod.splits)
  from c0 have s1: "s1 = s" by (rule Cond.IH)
  show ?case
  proof (cases "x = 0")
    case True
    with Cond.prems c0 have "eval alloc b s1 = Some (SizeT c, s')" by simp
    then have "s' = s1" by (rule Cond.IH)
    with s1 show ?thesis by simp
  next
    case False
    with Cond.prems c0 have "eval alloc a s1 = Some (SizeT c, s')" by simp
    then have "s' = s1" by (rule Cond.IH)
    with s1 show ?thesis by simp
  qed
qed auto

lemma binop_val_loose: "2 < level_of_op b \<Longrightarrow> \<exists>v. binop_val b x y = Some v"
  by (cases b) simp_all

lemma eval_regroup:
  "eval alloc e s = Some (SizeT c, s') \<Longrightarrow> \<exists>B. eval alloc (regroup t e) s = Some (SizeT B, s)"
proof (induction e arbitrary: c s s')
  case (Bin b l r)
  from Bin.prems have s': "s' = s" by (rule eval_SizeT_pure)
  show ?case
  proof (cases "2 < level_of_op b")
    case False
    with Bin.prems s' show ?thesis by simp
  next
    case True
    from Bin.prems obtain x s1 where l: "eval alloc l s = Some (SizeT x, s1)"
      by (auto split: option.splits val.splits prod.splits)
    from l have s1: "s1 = s" by (rule eval_SizeT_pure)
    show ?thesis
    proof (cases "short_circuit b x")
      case sc: True
      with True l s1 show ?thesis by simp
    next
      case sc: False
      with Bin.prems l s1 obtain y s2 where "eval alloc r s = Some (SizeT y, s2)"
        by (auto split: option.splits val.splits prod.splits)
      from Bin.IH(2) [OF this] obtain B where B: "eval alloc (regroup t r) s = Some (SizeT B, s)"
        by blast
      from binop_val_loose [OF True] obtain v where "binop_val b x B = Some v" by blast
      with True l s1 sc B show ?thesis by simp
    qed
  qed
next
  case (Cond c0 a b)
  from Cond.prems have s': "s' = s" by (rule eval_SizeT_pure)
  from Cond.prems obtain x s1 where c0: "eval alloc c0 s = Some (SizeT x, s1)"
    by (auto split: option.splits val.splits prod.splits)
  from c0 have s1: "s1 = s" by (rule eval_SizeT_pure)
  show ?case
  proof (cases "x = 0")
    case True
    with Cond.prems c0 s1 have "eval alloc b s = Some (SizeT c, s')" by simp
    from Cond.IH(3) [OF this] True c0 s1 show ?thesis by simp
  next
    case False
    with Cond.prems c0 s1 s' show ?thesis by simp
  qed
next
  case (Var x)
  then show ?case by simp
next
  case (Num k)
  then show ?case by simp
next
  case (Paren e)
  from Paren.prems have "s' = s" by (rule eval_SizeT_pure)
  with Paren.prems show ?case by simp
next
  case (Call f e)
  then show ?case by (auto split: if_splits option.splits val.splits prod.splits)
next
  case (SizeofType u)
  then show ?case by simp
next
  case (CastPtr u e)
  then show ?case by (auto split: option.splits val.splits prod.splits)
next
  case (Unary u e)
  from Unary.prems have "s' = s" by (rule eval_SizeT_pure)
  with Unary.prems show ?case by simp
next
  case (Assign a x e)
  then show ?case by simp
qed

lemma run_entry_point:
  assumes "grammatical e" and "eval alloc (regroup t e) s = Some (SizeT B, s)"
  shows "run alloc (entry_point t (tokens_of e)) s =
           (case alloc (heap s) B of
              (p, h) \<Rightarrow> Some (Ptr t p, s\<lparr>heap := h, calls := calls s @ [B]\<rparr>))"
  unfolding run_def parse_entry_point [OF assms(1)]
  by (simp add: assms(2) split: prod.splits)

lemma run_entry_point_mul:
  assumes "grammatical e" and "level e \<le> 2" and "eval alloc e s = Some (SizeT c, s)"
  shows "run alloc (entry_point t (tokens_of e)) s =
           (case alloc (heap s) (c * of_nat (size_of t)) of
              (p, h) \<Rightarrow> Some (Ptr t p, s\<lparr>heap := h, calls := calls s @ [c * of_nat (size_of t)]\<rparr>))"
  by (rule run_entry_point [OF assms(1)])
    (simp add: regroup_tight [OF assms(2)] assms(3) short_circuit_def)

lemma requested_entry_point:
  assumes "grammatical e" and "eval alloc (regroup t e) s = Some (SizeT B, s)"
  shows "requested alloc (entry_point t (tokens_of e)) s = Some [B]"
  unfolding requested_def run_entry_point [OF assms]
  by (simp split: prod.splits)

lemma requested_entry_point_mul:
  assumes "grammatical e" and "level e \<le> 2" and "eval alloc e s = Some (SizeT c, s)"
  shows "requested alloc (entry_point t (tokens_of e)) s = Some [c * of_nat (size_of t)]"
  unfolding requested_def run_entry_point_mul [OF assms]
  by (simp split: prod.splits)


subsection \<open>Sizes, the bump allocator and the allocator contract\<close>

lemma unat_bytes:
  "unat (c * of_nat k :: 'a::len word) = (unat c * k) mod 2 ^ LENGTH('a)"
  by (simp add: unat_word_ariths unat_of_nat mod_mult_right_eq)

lemma unat_bytes_exact:
  "unat c * k < 2 ^ LENGTH('a) \<Longrightarrow> unat (c * of_nat k :: 'a::len word) = unat c * k"
  by (simp add: unat_bytes)

lemma block_end_le_fold:
  "lo \<le> fold (\<lambda>b hi. max hi (block_end b)) bs lo"
  by (induction bs arbitrary: lo) (auto intro: order_trans [OF max.cobounded1])

lemma block_end_le_fold_mem:
  "b \<in> set bs \<Longrightarrow> block_end b \<le> fold (\<lambda>b hi. max hi (block_end b)) bs lo"
proof (induction bs arbitrary: lo)
  case Nil
  then show ?case by simp
next
  case (Cons a bs)
  show ?case
  proof (cases "b = a")
    case True
    have "block_end a \<le> max lo (block_end a)" by simp
    also have "\<dots> \<le> fold (\<lambda>b hi. max hi (block_end b)) bs (max lo (block_end a))"
      by (rule block_end_le_fold)
    finally show ?thesis using True by simp
  next
    case False
    with Cons.prems have "b \<in> set bs" by simp
    then show ?thesis by (simp add: Cons.IH)
  qed
qed

lemma next_free_pos: "1 \<le> next_free h"
  unfolding next_free_def by (rule block_end_le_fold)

lemma next_free_above: "b \<in> set (live h) \<Longrightarrow> block_end b \<le> next_free h"
  unfolding next_free_def by (rule block_end_le_fold_mem)

lemma bump_malloc_contract: "malloc_contract (bump_malloc z :: ('a::len) allocator)"
  unfolding malloc_contract_def
proof (intro allI)
  fix h :: "'a word heap" and n :: "'a word"
  show "case bump_malloc z h n of (p, h') \<Rightarrow>
          if p = 0 then live h' = live h
          else set (live h') = insert (p, unat n) (set (live h)) \<and>
               block_end (p, unat n) \<le> 2 ^ LENGTH('a) \<and>
               (\<forall>b \<in> set (live h). blocks_disjoint (p, unat n) b)"
  proof (cases "(z \<and> n = 0) \<or> 2 ^ LENGTH('a) < next_free h + max 1 (unat n)")
    case True
    then show ?thesis by (simp add: bump_malloc_def)
  next
    case False
    then have fits: "next_free h + max 1 (unat n) \<le> 2 ^ LENGTH('a)" by simp
    then have lt: "next_free h < 2 ^ LENGTH('a)" by simp
    have un: "unat (of_nat (next_free h) :: 'a word) = next_free h"
      using lt by (simp add: unat_of_nat)
    have nz: "(of_nat (next_free h) :: 'a word) \<noteq> 0"
      using un next_free_pos [of h] by (metis not_one_le_zero unat_0_iff)
    have dis: "\<forall>b \<in> set (live h). blocks_disjoint (of_nat (next_free h), unat n) b"
      by (simp add: blocks_disjoint_def un next_free_above)
    from False nz fits dis show ?thesis
      by (simp add: bump_malloc_def block_end_def un)
  qed
qed

lemma eval_SizeT_vars:
  "eval alloc e s = Some (SizeT c, s') \<Longrightarrow> vars s2 = vars s \<Longrightarrow>
   eval alloc e s2 = Some (SizeT c, s2)"
proof (induction e arbitrary: c s s')
  case (Call f e)
  then show ?case
    by (auto split: if_splits option.splits val.splits prod.splits)
next
  case (CastPtr t e)
  then show ?case
    by (auto split: option.splits val.splits prod.splits)
next
  case (Unary u e)
  from Unary.prems(1) obtain a s1 where e: "eval alloc e s = Some (SizeT a, s1)"
    and c: "c = unop_val u a"
    by (auto split: option.splits val.splits prod.splits)
  from Unary.IH [OF e Unary.prems(2)] c show ?case by simp
next
  case (Bin b l r)
  from Bin.prems(1) obtain x s1 where l: "eval alloc l s = Some (SizeT x, s1)"
    by (auto split: option.splits val.splits prod.splits)
  from l have s1: "s1 = s" by (rule eval_SizeT_pure)
  note l2 = Bin.IH(1) [OF l Bin.prems(2)]
  show ?case
  proof (cases "short_circuit b x")
    case True
    with Bin.prems(1) l l2 show ?thesis by simp
  next
    case False
    with Bin.prems(1) l obtain y where r: "eval alloc r s1 = Some (SizeT y, s')"
      and c: "binop_val b x y = Some c"
      by (auto split: option.splits val.splits prod.splits)
    from r s1 have "eval alloc r s = Some (SizeT y, s')" by simp
    from Bin.IH(2) [OF this Bin.prems(2)] l2 False c show ?thesis by simp
  qed
next
  case (Cond q a b)
  from Cond.prems(1) obtain x s1 where q: "eval alloc q s = Some (SizeT x, s1)"
    by (auto split: option.splits val.splits prod.splits)
  from q have s1: "s1 = s" by (rule eval_SizeT_pure)
  note q2 = Cond.IH(1) [OF q Cond.prems(2)]
  show ?case
  proof (cases "x = 0")
    case True
    with Cond.prems(1) q s1 have "eval alloc b s = Some (SizeT c, s')" by simp
    from Cond.IH(3) [OF this Cond.prems(2)] q2 True show ?thesis by simp
  next
    case False
    with Cond.prems(1) q s1 have "eval alloc a s = Some (SizeT c, s')" by simp
    from Cond.IH(2) [OF this Cond.prems(2)] q2 False show ?thesis by simp
  qed
qed auto

lemmas example_defs = start64_def stale_heap_def exhausted64_def bump_malloc_def next_free_def
  block_end_def size_of_def short_circuit_def truth_def

lemma malloc_contractD:
  fixes alloc :: "('a::len) allocator"
  assumes "malloc_contract alloc" and "alloc h n = (p, h')" and "p \<noteq> 0"
  shows "set (live h') = insert (p, unat n) (set (live h))"
    and "block_end (p, unat n) \<le> 2 ^ LENGTH('a)"
    and "\<forall>b \<in> set (live h). blocks_disjoint (p, unat n) b"
  using assms(1) [unfolded malloc_contract_def, rule_format, of h n] assms(2,3)
  by simp_all

lemma fresh_block_length:
  assumes "set (live h') = insert (p, n) (set (live h))"
    and "\<forall>b \<in> set (live h). blocks_disjoint (p, n) b"
  shows "buffer_length h' p = Some n"
proof -
  from assms(1) have "(p, n) \<in> set (live h')" by simp
  then obtain v where v: "map_of (live h') p = Some v"
    by (blast dest: weak_map_of_SomeI)
  then have "(p, v) \<in> set (live h')" by (rule map_of_SomeD)
  with assms(1) have "v = n \<or> (p, v) \<in> set (live h)" by auto
  moreover have "(p, v) \<notin> set (live h)"
  proof
    assume "(p, v) \<in> set (live h)"
    with assms(2) have "blocks_disjoint (p, n) (p, v)" by blast
    then show False by (simp add: blocks_disjoint_def block_end_def)
  qed
  ultimately show ?thesis using v by (simp add: buffer_length_def)
qed

section \<open>Properties of the allocation macros\<close>

text \<open>
  In the statements below a call with element count \<open>c\<close> is a macro use whose argument
  \<open>e\<close> is an expression of the grammar that binds at least as tightly as
  multiplication (\<open>level e \<le> 2\<close>: a variable, a literal, a parenthesised expression, a
  unary expression, a product, quotient or remainder) and has the value \<open>c\<close>.
  An expression with an integer value contains no call, so its evaluation leaves the
  state as it was (\<open>eval_SizeT_pure\<close>).
\<close>

subsection \<open>C1: byte length of the buffer\<close>

text \<open>
  C1, as stated, fails: on a 64-bit host, \<^verbatim>\<open>malloc_complex128(1152921504606846977)\<close>
  (count \<open>2 ^ 60 + 1\<close>) succeeds with the bump allocator and yields a block of 16
  bytes, while count times element size is \<open>2 ^ 64 + 16\<close>.
\<close>

theorem allocate_length_overflow_counterexample:
  "malloc_contract (bump_malloc False :: 64 allocator)
   \<and> run (bump_malloc False) (malloc_complex128 [NUM (2 ^ 60 + 1)]) start64 =
       Some (Ptr Complex128 1, start64\<lparr>heap := stale_heap\<lparr>live := [(1, 16)]\<rparr>, calls := [16]\<rparr>)
   \<and> buffer_length (stale_heap\<lparr>live := [(1, 16)]\<rparr>) 1 = Some 16
   \<and> (16::nat) \<noteq> (2 ^ 60 + 1) * size_of Complex128"
  using run_entry_point_mul [of "Num (2 ^ 60 + 1)" "bump_malloc False" start64 "2 ^ 60 + 1" Complex128]
  by (simp add: example_defs buffer_length_def bump_malloc_contract)

text \<open>
  C1, amended: for every element kind and every count whose product with the element
  size is below \<open>2 ^ w\<close>, a successful call (non-null result) yields a live block at
  the returned address whose byte length is count times element size, for every
  allocator that keeps the contract of \<^verbatim>\<open>malloc\<close>.
\<close>

theorem buffer_length_no_overflow:
  fixes alloc :: "('a::len) allocator"
  assumes "malloc_contract alloc"
    and "grammatical e" and "level e \<le> 2" and "eval alloc e s = Some (SizeT c, s)"
    and "unat c * size_of t < 2 ^ LENGTH('a)"
    and "run alloc (entry_point t (tokens_of e)) s = Some (Ptr t p, s')" and "p \<noteq> 0"
  shows "buffer_length (heap s') p = Some (unat c * size_of t)"
proof -
  let ?B = "c * of_nat (size_of t) :: 'a word"
  obtain q h where a: "alloc (heap s) ?B = (q, h)" by (cases "alloc (heap s) ?B")
  with assms(6) have p: "q = p" and s': "heap s' = h"
    by (auto simp: run_entry_point_mul [OF assms(2-4)])
  from a p have a': "alloc (heap s) ?B = (p, h)" by simp
  have "set (live h) = insert (p, unat ?B) (set (live (heap s)))"
    and "\<forall>b \<in> set (live (heap s)). blocks_disjoint (p, unat ?B) b"
    using malloc_contractD [OF assms(1) a' \<open>p \<noteq> 0\<close>] by simp_all
  then have "buffer_length h p = Some (unat ?B)" by (rule fresh_block_length)
  with s' assms(5) show ?thesis by (simp add: unat_bytes_exact)
qed

text \<open>
  \<^verbatim>\<open>malloc_double(n)\<close> with \<^verbatim>\<open>n = 1024\<close> yields a block of \<open>1024 * 8\<close> bytes.
\<close>

theorem buffer_length_no_overflow_witness:
  "run (bump_malloc False) (malloc_double [IDENT ''n'']) start64 =
     Some (Ptr Double 1, start64\<lparr>heap := stale_heap\<lparr>live := [(1, 8192)]\<rparr>, calls := [8192]\<rparr>)
   \<and> buffer_length (stale_heap\<lparr>live := [(1, 8192)]\<rparr>) (1 :: 64 word)
       = Some (unat (1024 :: 64 word) * size_of Double)"
proof -
  have run: "run (bump_malloc False) (entry_point Double (tokens_of (Var ''n''))) start64 =
     Some (Ptr Double 1, start64\<lparr>heap := stale_heap\<lparr>live := [(1, 8192)]\<rparr>, calls := [8192]\<rparr>)"
    using run_entry_point_mul [of "Var ''n''" "bump_malloc False" start64 1024 Double]
    by (simp add: example_defs)
  show ?thesis
    using run buffer_length_no_overflow [OF bump_malloc_contract,
        of "Var ''n''" False start64 1024 Double 1, OF _ _ _ _ run]
    by (simp add: example_defs)
qed

subsection \<open>C2: the size computation wraps without a check\<close>

text \<open>
  C2: for every count \<open>c\<close> and kind, the one size passed to the allocator is the product
  of \<open>c\<close> and the element size in \<^verbatim>\<open>size_t\<close> arithmetic, that is the mathematical
  product modulo \<open>2 ^ w\<close>; the macro then returns whatever the allocator answers to that
  size, whether the product overflowed or not: nothing detects or rejects the overflow.
\<close>

theorem request_wraps_unchecked:
  fixes alloc :: "('a::len) allocator"
  assumes "grammatical e" and "level e \<le> 2" and "eval alloc e s = Some (SizeT c, s)"
  shows "requested alloc (entry_point t (tokens_of e)) s = Some [c * of_nat (size_of t)]
       \<and> unat (c * of_nat (size_of t) :: 'a word) = (unat c * size_of t) mod 2 ^ LENGTH('a)
       \<and> run alloc (entry_point t (tokens_of e)) s =
           Some (Ptr t (fst (alloc (heap s) (c * of_nat (size_of t)))),
                 s\<lparr>heap := snd (alloc (heap s) (c * of_nat (size_of t))),
                    calls := calls s @ [c * of_nat (size_of t)]\<rparr>)"
  using assms
  by (simp add: requested_entry_point_mul unat_bytes run_entry_point_mul split: prod.splits)

text \<open>
  At count \<open>2 ^ 60 + 1\<close> and Complex128 on a 64-bit host the product is at least
  \<open>2 ^ 64\<close>; 16 bytes are requested and the call succeeds.
\<close>

theorem request_wraps_unchecked_witness:
  "requested (bump_malloc False) (malloc_complex128 [NUM (2 ^ 60 + 1)]) start64 = Some [16]
   \<and> (2 ^ 64 :: nat) \<le> unat (2 ^ 60 + 1 :: 64 word) * size_of Complex128
   \<and> unat (16 :: 64 word) = (unat (2 ^ 60 + 1 :: 64 word) * size_of Complex128) mod 2 ^ 64
   \<and> run (bump_malloc False) (malloc_complex128 [NUM (2 ^ 60 + 1)]) start64 =
        Some (Ptr Complex128 1, start64\<lparr>heap := stale_heap\<lparr>live := [(1, 16)]\<rparr>, calls := [16]\<rparr>)"
  using request_wraps_unchecked [of "Num (2 ^ 60 + 1)" "bump_malloc False" start64 "2 ^ 60 + 1" Complex128]
  by (simp add: example_defs)

subsection \<open>C3: a count of zero\<close>

text \<open>
  C3, as stated, fails: with an allocator that keeps the contract of \<^verbatim>\<open>malloc\<close> and
  answers a request for zero bytes with a null pointer, as ISO C allows,
  \<^verbatim>\<open>malloc_float(0)\<close> returns the null handle.
\<close>

theorem allocate_zero_null_counterexample:
  "malloc_contract (bump_malloc True :: 64 allocator)
   \<and> run (bump_malloc True) (malloc_float [NUM 0]) start64 =
       Some (Ptr Float 0, start64\<lparr>calls := [0]\<rparr>)"
  using run_entry_point_mul [of "Num 0" "bump_malloc True" start64 0 Float]
  by (simp add: example_defs bump_malloc_contract)

text \<open>
  C3, amended: for every element kind, a call with count zero passes one request for
  zero bytes to the platform allocator and returns its answer unchanged; the macro adds
  no failure of its own, so the call succeeds exactly when the allocator answers a
  zero-size request with a non-null pointer.
\<close>

theorem allocate_zero_forwards:
  fixes alloc :: "('a::len) allocator"
  assumes "grammatical e" and "level e \<le> 2" and "eval alloc e s = Some (SizeT 0, s)"
  shows "run alloc (entry_point t (tokens_of e)) s =
           Some (Ptr t (fst (alloc (heap s) 0)),
                 s\<lparr>heap := snd (alloc (heap s) 0), calls := calls s @ [0]\<rparr>)"
  using assms by (simp add: run_entry_point_mul split: prod.splits)

text \<open>
  With the bump allocator that hands out a unique address for zero bytes,
  \<^verbatim>\<open>malloc_complex64(0)\<close> succeeds with a block of length zero.
\<close>

theorem allocate_zero_forwards_witness:
  "fst (bump_malloc False (heap start64) 0) = 1
   \<and> run (bump_malloc False) (malloc_complex64 [NUM 0]) start64 =
       Some (Ptr Complex64 1, start64\<lparr>heap := stale_heap\<lparr>live := [(1, 0)]\<rparr>, calls := [0]\<rparr>)"
  using allocate_zero_forwards [of "Num 0" "bump_malloc False" start64 Complex64]
  by (simp add: example_defs)

subsection \<open>C4: failure is the null handle\<close>

text \<open>
  C4: for every count and kind the call returns (it has a value: nothing is thrown or
  aborted), it passes exactly one request to the allocator (no retry), and the handle it
  returns is the pointer the allocator answered; so the handle is null exactly when the
  allocator could not satisfy the request.
\<close>

theorem failure_returns_null:
  fixes alloc :: "('a::len) allocator"
  assumes "grammatical e" and "level e \<le> 2" and "eval alloc e s = Some (SizeT c, s)"
  shows "\<exists>p s'. run alloc (entry_point t (tokens_of e)) s = Some (Ptr t p, s')
           \<and> p = fst (alloc (heap s) (c * of_nat (size_of t)))
           \<and> calls s' = calls s @ [c * of_nat (size_of t)]"
  using assms by (simp add: run_entry_point_mul split: prod.splits)

text \<open>
  With nearly all of the address space in use, \<^verbatim>\<open>malloc_double(n)\<close> for \<^verbatim>\<open>n = 1024\<close>
  returns the null handle after one request for 8192 bytes.
\<close>

theorem failure_returns_null_witness:
  "fst (bump_malloc False (heap exhausted64) (1024 * 8)) = 0
   \<and> (\<exists>p s'. run (bump_malloc False) (malloc_double [IDENT ''n'']) exhausted64 = Some (Ptr Double p, s')
           \<and> p = 0 \<and> calls s' = calls exhausted64 @ [8192])"
  using failure_returns_null [of "Var ''n''" "bump_malloc False" exhausted64 1024 Double]
  by (simp add: example_defs)

subsection \<open>C5: the argument is not parenthesised\<close>







subsection \<open>C6: element sizes\<close>

text \<open>
  C6: the size of Complex64 is twice that of Real32 and the size of Complex128 is twice
  that of Real64; Real32 takes 4 bytes, Real64 8, Complex64 8 and Complex128 16.
\<close>

theorem element_sizes:
  "size_of Complex64 = 2 * size_of Real32 \<and> size_of Complex128 = 2 * size_of Real64 \<and>
   size_of Real32 = 4 \<and> size_of Real64 = 8 \<and> size_of Complex64 = 8 \<and> size_of Complex128 = 16"
  by (simp add: size_of_def)

subsection \<open>C7: the buffer is not initialised\<close>

text \<open>
  C7: for every count and kind the expansion is a cast of one call of \<^verbatim>\<open>malloc\<close> and
  nothing else, so the heap after the call, the contents of the new buffer included, is
  the heap as \<^verbatim>\<open>malloc\<close> left it: the macro writes no element. The contents are not
  guaranteed to be zero: for every kind there is an allocator keeping the contract of
  \<^verbatim>\<open>malloc\<close> and a state in which the first byte of a fresh buffer is not zero.
\<close>

theorem no_initialisation:
  fixes alloc :: "('a::len) allocator"
  shows "(grammatical e \<longrightarrow> level e \<le> 2 \<longrightarrow> eval alloc e s = Some (SizeT c, s) \<longrightarrow>
            parse (entry_point t (tokens_of e)) =
              Some (CastPtr t (Call ''malloc'' (Mul e (SizeofType t)))) \<and>
            (\<exists>p s'. run alloc (entry_point t (tokens_of e)) s = Some (Ptr t p, s')
               \<and> heap s' = snd (alloc (heap s) (c * of_nat (size_of t)))))
       \<and> (\<exists>p s'. malloc_contract (bump_malloc False :: 64 allocator)
             \<and> run (bump_malloc False) (entry_point t [NUM 1]) start64 = Some (Ptr t p, s')
             \<and> p \<noteq> 0 \<and> mem (heap s') p \<noteq> 0)"
proof (intro conjI impI)
  assume "grammatical e" "level e \<le> 2"
  then show "parse (entry_point t (tokens_of e)) =
      Some (CastPtr t (Call ''malloc'' (Mul e (SizeofType t))))"
    by (rule parse_entry_point_mul)
next
  assume "grammatical e" "level e \<le> 2" "eval alloc e s = Some (SizeT c, s)"
  then show "\<exists>p s'. run alloc (entry_point t (tokens_of e)) s = Some (Ptr t p, s')
      \<and> heap s' = snd (alloc (heap s) (c * of_nat (size_of t)))"
    by (simp add: run_entry_point_mul split: prod.splits)
next
  have "run (bump_malloc False) (entry_point t (tokens_of (Num 1))) start64 =
      Some (Ptr t 1, start64\<lparr>heap := stale_heap\<lparr>live := [(1, size_of t)]\<rparr>,
                             calls := [of_nat (size_of t)]\<rparr>)"
    using run_entry_point_mul [of "Num 1" "bump_malloc False" start64 1 t]
    by (cases t) (simp_all add: example_defs)
  then have "run (bump_malloc False) (entry_point t [NUM 1]) start64 =
      Some (Ptr t 1, start64\<lparr>heap := stale_heap\<lparr>live := [(1, size_of t)]\<rparr>,
                             calls := [of_nat (size_of t)]\<rparr>)
    \<and> (1 :: 64 word) \<noteq> 0
    \<and> mem (heap (start64\<lparr>heap := stale_heap\<lparr>live := [(1, size_of t)]\<rparr>,
                           calls := [of_nat (size_of t)]\<rparr>)) 1 \<noteq> 0"
    by (simp add: stale_heap_def)
  with bump_malloc_contract [of False, where 'a = 64]
  show "\<exists>p s'. malloc_contract (bump_malloc False :: 64 allocator)
      \<and> run (bump_malloc False) (entry_point t [NUM 1]) start64 = Some (Ptr t p, s')
      \<and> p \<noteq> 0 \<and> mem (heap s') p \<noteq> 0"
    by blast
qed

text \<open>
  After \<^verbatim>\<open>malloc_double(n)\<close> the buffer holds the stale bytes that memory held before.
\<close>

theorem no_initialisation_witness:
  "mem (snd (bump_malloc False (heap start64) (1024 * 8))) 1 = 170
   \<and> (\<exists>p s'. run (bump_malloc False) (malloc_double [IDENT ''n'']) start64 = Some (Ptr Double p, s')
         \<and> heap s' = snd (bump_malloc False (heap start64) (1024 * 8)))"
  using no_initialisation [of "Var ''n''" "bump_malloc False" start64 1024 Double]
  by (simp add: example_defs)

subsection \<open>C8: four instances of one operation\<close>

text \<open>
  C8: each of the four macros, used with count \<open>c\<close>, does what the one generic
  operation \<open>allocate\<close> of the specification does for its element kind: it requests
  \<open>c\<close> times the element size from the platform allocator and returns the result as a
  pointer to that kind. The macros differ in the element type only.
\<close>

theorem entry_points_refine_allocate:
  fixes alloc :: "('a::len) allocator"
  assumes "grammatical e" and "level e \<le> 2" and "eval alloc e s = Some (SizeT c, s)"
  shows "run alloc (malloc_float (tokens_of e)) s = Some (allocate alloc c Real32 s)
       \<and> run alloc (malloc_double (tokens_of e)) s = Some (allocate alloc c Real64 s)
       \<and> run alloc (malloc_complex64 (tokens_of e)) s = Some (allocate alloc c Complex64 s)
       \<and> run alloc (malloc_complex128 (tokens_of e)) s = Some (allocate alloc c Complex128 s)"
  using run_entry_point_mul [OF assms, of Float] run_entry_point_mul [OF assms, of Double]
    run_entry_point_mul [OF assms, of Complex64] run_entry_point_mul [OF assms, of Complex128]
  by (simp add: allocate_def Let_def split: prod.splits)

text \<open>
  With \<^verbatim>\<open>n = 1024\<close> each macro agrees with \<open>allocate\<close>; for Real64 the result is a
  block of 8192 bytes at the first free address.
\<close>

theorem entry_points_refine_allocate_witness:
  "run (bump_malloc False) (malloc_float [IDENT ''n'']) start64
     = Some (allocate (bump_malloc False) 1024 Real32 start64)
   \<and> run (bump_malloc False) (malloc_double [IDENT ''n'']) start64
     = Some (allocate (bump_malloc False) 1024 Real64 start64)
   \<and> run (bump_malloc False) (malloc_complex64 [IDENT ''n'']) start64
     = Some (allocate (bump_malloc False) 1024 Complex64 start64)
   \<and> run (bump_malloc False) (malloc_complex128 [IDENT ''n'']) start64
     = Some (allocate (bump_malloc False) 1024 Complex128 start64)
   \<and> allocate (bump_malloc False) 1024 Real64 start64
     = (Ptr Real64 1, start64\<lparr>heap := stale_heap\<lparr>live := [(1, 8192)]\<rparr>, calls := [8192]\<rparr>)"
  using entry_points_refine_allocate [of "Var ''n''" "bump_malloc False" start64 1024]
  by (simp add: example_defs allocate_def)

subsection \<open>C9: one request, nothing else touched\<close>

text \<open>
  C9: every call whose argument has an integer value, arguments of lower precedence
  than multiplication included, passes exactly one request to the platform allocator;
  the state after the call is the state before it with the allocator's new heap and
  that one request recorded. The variables are untouched and the returned pointer is
  stored nowhere.
\<close>

theorem single_request_frame:
  fixes alloc :: "('a::len) allocator"
  assumes g: "grammatical e" and v: "eval alloc e s = Some (SizeT c, s)"
  shows "\<exists>B p h. alloc (heap s) B = (p, h)
           \<and> run alloc (entry_point t (tokens_of e)) s =
               Some (Ptr t p, s\<lparr>heap := h, calls := calls s @ [B]\<rparr>)
           \<and> requested alloc (entry_point t (tokens_of e)) s = Some [B]"
proof -
  from eval_regroup [OF v] obtain B where B: "eval alloc (regroup t e) s = Some (SizeT B, s)"
    by blast
  obtain p h where a: "alloc (heap s) B = (p, h)" by (cases "alloc (heap s) B")
  from run_entry_point [OF g B] a
  have "run alloc (entry_point t (tokens_of e)) s =
      Some (Ptr t p, s\<lparr>heap := h, calls := calls s @ [B]\<rparr>)"
    by simp
  with a requested_entry_point [OF g B] show ?thesis by blast
qed

text \<open>
  \<^verbatim>\<open>malloc_complex64(a + b)\<close> makes one request, too.
\<close>

theorem single_request_frame_witness:
  "\<exists>B p h. bump_malloc False (heap start64) B = (p, h)
     \<and> run (bump_malloc False) (malloc_complex64 [IDENT ''a'', PLUS, IDENT ''b'']) start64 =
         Some (Ptr Complex64 p, start64\<lparr>heap := h, calls := calls start64 @ [B]\<rparr>)
     \<and> requested (bump_malloc False) (malloc_complex64 [IDENT ''a'', PLUS, IDENT ''b'']) start64
         = Some [B]"
  using single_request_frame [of "Add (Var ''a'') (Var ''b'')" "bump_malloc False" start64 8 Complex64]
  by (simp add: example_defs)

subsection \<open>C10: consecutive buffers do not alias\<close>

lemma unat_offset:
  fixes p :: "('a::len) word"
  assumes "unat p + n \<le> 2 ^ LENGTH('a)" and "i < n"
  shows "unat (p + of_nat i) = unat p + i"
proof -
  from assms have i: "i < 2 ^ LENGTH('a)" by simp
  then have "unat (of_nat i :: 'a word) = i" by (simp add: unat_of_nat)
  moreover from assms have "unat p + i < 2 ^ LENGTH('a)" by simp
  ultimately show ?thesis by (simp add: unat_add_lem [THEN iffD1])
qed

lemma disjoint_blocks_offsets:
  fixes p q :: "('a::len) word"
  assumes d: "blocks_disjoint (p, n) (q, n)"
    and p: "block_end (p, n) \<le> 2 ^ LENGTH('a)" and q: "block_end (q, n) \<le> 2 ^ LENGTH('a)"
    and i: "i < n" and j: "j < n"
  shows "p + of_nat i \<noteq> q + of_nat j"
proof
  assume eq: "p + of_nat i = q + of_nat j"
  from p i have "unat (p + of_nat i) = unat p + i"
    by (intro unat_offset [where n = n]) (simp_all add: block_end_def)
  moreover from q j have "unat (q + of_nat j) = unat q + j"
    by (intro unat_offset [where n = n]) (simp_all add: block_end_def)
  ultimately have "unat p + i = unat q + j" using eq by simp
  with d i j show False by (auto simp: blocks_disjoint_def block_end_def)
qed

text \<open>
  C10: for every allocator that keeps the contract of \<^verbatim>\<open>malloc\<close>, every count and
  every kind, two consecutive successful calls with the same argument return different
  addresses, and a byte written inside either buffer leaves every byte of the other
  buffer as it was.
\<close>

theorem consecutive_buffers_disjoint:
  fixes alloc :: "('a::len) allocator"
  assumes c: "malloc_contract alloc"
    and g: "grammatical e" and lv: "level e \<le> 2" and v: "eval alloc e s = Some (SizeT n, s)"
    and first: "run alloc (entry_point t (tokens_of e)) s = Some (Ptr t p1, s1)"
    and second: "run alloc (entry_point t (tokens_of e)) s1 = Some (Ptr t p2, s2)"
    and nz: "p1 \<noteq> 0" "p2 \<noteq> 0"
  shows "p1 \<noteq> p2 \<and>
    (\<forall>i j x. i < unat (n * of_nat (size_of t)) \<longrightarrow> j < unat (n * of_nat (size_of t)) \<longrightarrow>
       mem (store_byte (heap s2) (p1 + of_nat i) x) (p2 + of_nat j) = mem (heap s2) (p2 + of_nat j) \<and>
       mem (store_byte (heap s2) (p2 + of_nat j) x) (p1 + of_nat i) = mem (heap s2) (p1 + of_nat i))"
proof -
  let ?B = "n * of_nat (size_of t) :: 'a word"
  obtain q1 h1 where a1: "alloc (heap s) ?B = (q1, h1)" by (cases "alloc (heap s) ?B")
  with first have q1: "q1 = p1" and s1: "s1 = s\<lparr>heap := h1, calls := calls s @ [?B]\<rparr>"
    by (auto simp: run_entry_point_mul [OF g lv v])
  have v1: "eval alloc e s1 = Some (SizeT n, s1)"
    by (rule eval_SizeT_vars [OF v]) (simp add: s1)
  obtain q2 h2 where a2: "alloc (heap s1) ?B = (q2, h2)" by (cases "alloc (heap s1) ?B")
  with second have q2: "q2 = p2"
    by (auto simp: run_entry_point_mul [OF g lv v1])
  from a1 q1 have a1': "alloc (heap s) ?B = (p1, h1)" by simp
  from a2 q2 s1 have a2': "alloc h1 ?B = (p2, h2)" by simp
  have in1: "(p1, unat ?B) \<in> set (live h1)" and end1: "block_end (p1, unat ?B) \<le> 2 ^ LENGTH('a)"
    using malloc_contractD [OF c a1' nz(1)] by simp_all
  have end2: "block_end (p2, unat ?B) \<le> 2 ^ LENGTH('a)"
    and dis: "\<forall>b \<in> set (live h1). blocks_disjoint (p2, unat ?B) b"
    using malloc_contractD [OF c a2' nz(2)] by simp_all
  from dis in1 have d: "blocks_disjoint (p2, unat ?B) (p1, unat ?B)" by blast
  then have "p1 \<noteq> p2" by (auto simp: blocks_disjoint_def block_end_def)
  moreover have neq: "p2 + of_nat j \<noteq> p1 + of_nat i" if "i < unat ?B" "j < unat ?B" for i j
    using d end2 end1 that(2,1) by (rule disjoint_blocks_offsets)
  moreover have "p1 + of_nat i \<noteq> p2 + of_nat j" if "i < unat ?B" "j < unat ?B" for i j
    using neq [OF that] by (rule not_sym)
  ultimately show ?thesis by (simp add: store_byte_def)
qed

text \<open>
  Two calls of \<^verbatim>\<open>malloc_double(n)\<close> with \<^verbatim>\<open>n = 1024\<close> on the bump allocator return the
  addresses 1 and 8193; a byte written at the end of the first buffer leaves the first
  byte of the second as it was.
\<close>

theorem consecutive_buffers_disjoint_witness:
  "run (bump_malloc False) (malloc_double [IDENT ''n'']) start64 =
     Some (Ptr Double 1, start64\<lparr>heap := stale_heap\<lparr>live := [(1, 8192)]\<rparr>, calls := [8192]\<rparr>)
   \<and> run (bump_malloc False) (malloc_double [IDENT ''n''])
        (start64\<lparr>heap := stale_heap\<lparr>live := [(1, 8192)]\<rparr>, calls := [8192]\<rparr>) =
     Some (Ptr Double 8193,
           start64\<lparr>heap := stale_heap\<lparr>live := [(1, 8192), (8193, 8192)]\<rparr>, calls := [8192, 8192]\<rparr>)
   \<and> (1 :: 64 word) \<noteq> 8193
   \<and> mem (store_byte (stale_heap\<lparr>live := [(1, 8192), (8193, 8192)]\<rparr>) (1 + of_nat 8191) 255)
         (8193 + of_nat 0) = 170"
proof -
  let ?s1 = "start64\<lparr>heap := stale_heap\<lparr>live := [(1, 8192)]\<rparr>, calls := [8192]\<rparr>"
  let ?s2 = "start64\<lparr>heap := stale_heap\<lparr>live := [(1, 8192), (8193, 8192)]\<rparr>, calls := [8192, 8192]\<rparr>"
  have r1: "run (bump_malloc False) (entry_point Double (tokens_of (Var ''n''))) start64 =
      Some (Ptr Double 1, ?s1)"
    using run_entry_point_mul [of "Var ''n''" "bump_malloc False" start64 1024 Double]
    by (simp add: example_defs)
  have r2: "run (bump_malloc False) (entry_point Double (tokens_of (Var ''n''))) ?s1 =
      Some (Ptr Double 8193, ?s2)"
    using run_entry_point_mul [of "Var ''n''" "bump_malloc False" ?s1 1024 Double]
    by (simp add: example_defs)
  have "grammatical (Var ''n'')" and "level (Var ''n'') \<le> 2"
    and "eval (bump_malloc False) (Var ''n'') start64 = Some (SizeT 1024, start64)"
    and "(1 :: 64 word) \<noteq> 0" and "(8193 :: 64 word) \<noteq> 0"
    by (simp_all add: example_defs)
  note disjoint = consecutive_buffers_disjoint [OF bump_malloc_contract this(1-3) r1 r2 this(4,5)]
  from disjoint have "(1 :: 64 word) \<noteq> 8193" by simp
  moreover from disjoint [THEN conjunct2, rule_format, of 8191 0 255]
  have "mem (store_byte (heap ?s2) (1 + of_nat 8191) 255) (8193 + of_nat 0)
          = mem (heap ?s2) (8193 + of_nat 0)"
    by (simp add: size_of_def)
  ultimately show ?thesis using r1 r2 by (simp add: example_defs)
qed

end
